theory Spec2Isabelle
  imports Complex_Main "HOL-Library.Char_ord"
begin

section \<open>Transcript text\<close>

text \<open>
  A transcript is a JavaScript string. It is modelled as a \<^typ>\<open>string\<close> whose characters
  stand for the code units U+0000 .. U+00FF, so a transcript of the model is a JavaScript
  string over that range. White space is what the regular expression class \<^verbatim>\<open>\s\<close> and
  \<^verbatim>\<open>String.prototype.trim\<close> treat as such in that range: TAB, LF, VT, FF, CR, SPACE and
  NO-BREAK SPACE.
\<close>

definition isWhiteSpace :: "char \<Rightarrow> bool" where
  "isWhiteSpace c =
     (c = CHR 0x09 \<or> c = CHR 0x0A \<or> c = CHR 0x0B \<or> c = CHR 0x0C \<or> c = CHR 0x0D
      \<or> c = CHR 0x20 \<or> c = CHR 0xA0)"

text \<open>\<^verbatim>\<open>String.prototype.trim\<close>: white space is removed at both ends.\<close>

definition trim :: "string \<Rightarrow> string" where
  "trim s = dropWhile isWhiteSpace (rev (dropWhile isWhiteSpace (rev s)))"

text \<open>\<^verbatim>\<open>s.replace(/\s+/g, " ")\<close>: every maximal run of white space becomes one space.\<close>

function collapse_ws :: "string \<Rightarrow> string" where
  "collapse_ws [] = []"
| "collapse_ws (x # xs) =
     (if isWhiteSpace x then CHR '' '' # collapse_ws (dropWhile isWhiteSpace xs)
      else x # collapse_ws xs)"
  by pat_completeness auto
termination
  by (relation "measure length") (auto simp: less_Suc_eq_le length_dropWhile_le)

text \<open>
  \<^verbatim>\<open>s.split(" ")\<close>: the pieces between the occurrences of the separator; the empty string
  splits into one empty piece.
\<close>

fun split_on :: "char \<Rightarrow> string \<Rightarrow> string list" where
  "split_on c [] = [[]]"
| "split_on c (x # xs) =
     (if x = c then [] # split_on c xs
      else (case split_on c xs of [] \<Rightarrow> [[x]] | w # ws \<Rightarrow> (x # w) # ws))"

text \<open>
  \<^verbatim>\<open>String.prototype.toLowerCase\<close> on the code units below 256: A-Z and the capital letters
  U+00C0 .. U+00DE (without the multiplication sign U+00D7) move up by 32.
\<close>

definition toLowerCaseChar :: "char \<Rightarrow> char" where
  "toLowerCaseChar c =
     (if (CHR ''A'' \<le> c \<and> c \<le> CHR ''Z'') \<or> (CHR 0xC0 \<le> c \<and> c \<le> CHR 0xDE \<and> c \<noteq> CHR 0xD7)
      then char_of (of_char c + (32::nat)) else c)"

definition toLowerCase :: "string \<Rightarrow> string" where
  "toLowerCase s = map toLowerCaseChar s"

text \<open>The character class \<^verbatim>\<open>[a-z0-9]\<close> and the class \<^verbatim>\<open>\d\<close>.\<close>

definition isLowerAlnum :: "char \<Rightarrow> bool" where
  "isLowerAlnum c = ((CHR ''a'' \<le> c \<and> c \<le> CHR ''z'') \<or> (CHR ''0'' \<le> c \<and> c \<le> CHR ''9''))"

definition isDigit :: "char \<Rightarrow> bool" where
  "isDigit c = (CHR ''0'' \<le> c \<and> c \<le> CHR ''9'')"

text \<open>
  \<^verbatim>\<open>s.replace(/^[^a-z0-9]+|[^a-z0-9]+$/g, "")\<close>: the leading run of characters outside
  \<^verbatim>\<open>[a-z0-9]\<close> is removed first, then the trailing run of what is left.
\<close>

definition stripNonAlnum :: "string \<Rightarrow> string" where
  "stripNonAlnum s =
     rev (dropWhile (\<lambda>c. \<not> isLowerAlnum c) (rev (dropWhile (\<lambda>c. \<not> isLowerAlnum c) s)))"

section \<open>The short-utterance filter of webhook.ts\<close>

definition TRANSCRIPT_FILLER_WORDS :: "string list" where
  "TRANSCRIPT_FILLER_WORDS =
     [''ah'', ''eh'', ''erm'', ''hey'', ''hi'', ''hm'', ''hmm'', ''huh'', ''mhm'', ''mm'',
      ''uh'', ''uhh'', ''um'', ''umm'']"

definition TRANSCRIPT_SHORT_WORD_ALLOWLIST :: "string list" where
  "TRANSCRIPT_SHORT_WORD_ALLOWLIST =
     [''no'', ''nope'', ''ok'', ''okay'', ''sure'', ''yes'', ''yep'']"

definition normalizeTranscriptWord :: "string \<Rightarrow> string" where
  "normalizeTranscriptWord word = stripNonAlnum (toLowerCase word)"

text \<open>\<^verbatim>\<open>transcript.trim().replace(/\s+/g, " ")\<close>, the first line of both exported functions.\<close>

definition compact_of :: "string \<Rightarrow> string" where
  "compact_of transcript = collapse_ws (trim transcript)"

definition shouldIgnoreTranscriptForResponse :: "string \<Rightarrow> bool" where
  "shouldIgnoreTranscriptForResponse transcript =
     (let compact = compact_of transcript in
      if compact = [] then True
      else
        let tokens = split_on CHR '' '' compact in
        if length tokens \<noteq> 1 then False
        else
          let token = normalizeTranscriptWord (case tokens of [] \<Rightarrow> [] | w # _ \<Rightarrow> w) in
          if token \<noteq> [] \<and> token \<in> set TRANSCRIPT_FILLER_WORDS then True
          else if token \<noteq> [] \<and> length token \<le> 2
                  \<and> token \<notin> set TRANSCRIPT_SHORT_WORD_ALLOWLIST then True
          else if token = [] \<and> length compact \<le> 2 then True
          else False)"

section \<open>The topic guard of webhook.ts\<close>

definition SINGLE_TOPIC_STOP_WORDS :: "string list" where
  "SINGLE_TOPIC_STOP_WORDS =
     [''a'', ''an'', ''and'', ''are'', ''as'', ''at'', ''be'', ''but'', ''by'', ''for'',
      ''from'', ''how'', ''i'', ''if'', ''in'', ''is'', ''it'', ''me'', ''my'', ''of'', ''on'',
      ''or'', ''our'', ''please'', ''so'', ''that'', ''the'', ''their'', ''them'', ''they'',
      ''this'', ''to'', ''us'', ''we'', ''what'', ''when'', ''where'', ''which'', ''who'',
      ''why'', ''with'', ''you'', ''your'']"

definition SINGLE_TOPIC_ANCHOR_KEYWORD_LIMIT :: nat where
  "SINGLE_TOPIC_ANCHOR_KEYWORD_LIMIT = 16"

definition normalizeTopicKeyword :: "string \<Rightarrow> string" where
  "normalizeTopicKeyword word = stripNonAlnum (toLowerCase word)"

text \<open>\<^verbatim>\<open>/^\d+$/.test(word)\<close>: a non-empty word of digits only.\<close>

definition isDigitsOnly :: "string \<Rightarrow> bool" where
  "isDigitsOnly word = (word \<noteq> [] \<and> list_all isDigit word)"

text \<open>
  \<^verbatim>\<open>Array.from(new Set(xs))\<close>: a JavaScript \<^verbatim>\<open>Set\<close> iterates in insertion order, so the first
  occurrence of every element is kept (\<^const>\<open>remdups\<close> would keep the last one).
\<close>

fun dedup_first :: "'a list \<Rightarrow> 'a list" where
  "dedup_first [] = []"
| "dedup_first (x # xs) = x # dedup_first (filter (\<lambda>y. y \<noteq> x) xs)"

definition extractTopicKeywords :: "string \<Rightarrow> string list" where
  "extractTopicKeywords transcript =
     (let compact = compact_of transcript in
      if compact = [] then []
      else
        let keywords =
          filter (\<lambda>word. word \<notin> set SINGLE_TOPIC_STOP_WORDS)
            (filter (\<lambda>word. \<not> isDigitsOnly word)
              (filter (\<lambda>word. length word \<ge> 3)
                (map normalizeTopicKeyword (split_on CHR '' '' compact))))
        in dedup_first keywords)"

record topic_decision =
  allow :: bool
  establishAnchor :: bool
  transcriptKeywords :: "string list"
  overlapKeywords :: "string list"

text \<open>
  \<^verbatim>\<open>minKeywords\<close> is a JavaScript number; the model takes the finite ones, as a real.
  \<^verbatim>\<open>params.minKeywords || 1\<close> replaces the falsy number 0 by 1.
\<close>

definition evaluateSingleTopicTranscript ::
  "string \<Rightarrow> string list \<Rightarrow> real \<Rightarrow> topic_decision" where
  "evaluateSingleTopicTranscript transcript anchorKeywords minKeywords0 =
     (let minKeywords = max 1 (\<lfloor>if minKeywords0 = 0 then 1 else minKeywords0\<rfloor>);
          tk = extractTopicKeywords transcript in
      if int (length tk) < minKeywords then
        \<lparr>allow = True, establishAnchor = False, transcriptKeywords = tk, overlapKeywords = []\<rparr>
      else if length anchorKeywords = 0 then
        \<lparr>allow = True, establishAnchor = True, transcriptKeywords = tk, overlapKeywords = []\<rparr>
      else
        let ov = filter (\<lambda>keyword. keyword \<in> set anchorKeywords) tk in
        \<lparr>allow = length ov > 0, establishAnchor = False, transcriptKeywords = tk,
         overlapKeywords = ov\<rparr>)"

section \<open>White-space separated tokens, as the specification describes them\<close>

text \<open>
  The specification speaks of the white-space separated tokens of an utterance. This is that
  notion written down directly, without the detour over \<^const>\<open>trim\<close>, \<^const>\<open>collapse_ws\<close>
  and \<^const>\<open>split_on\<close> the source takes: the maximal runs of characters that are not white space.
\<close>

function spec_tokens :: "string \<Rightarrow> string list" where
  "spec_tokens [] = []"
| "spec_tokens (x # xs) =
     (if isWhiteSpace x then spec_tokens xs
      else (x # takeWhile (\<lambda>c. \<not> isWhiteSpace c) xs)
             # spec_tokens (dropWhile (\<lambda>c. \<not> isWhiteSpace c) xs))"
  by pat_completeness auto
termination
  by (relation "measure length") (auto simp: less_Suc_eq_le length_dropWhile_le)

section \<open>Keyword extraction, as the specification describes it\<close>

text \<open>
  The specification describes keyword extraction in words: the tokens of the utterance are
  lower-cased and stripped of leading and trailing non-alphanumerics; those of length at
  least 3 that are neither pure digits nor stop words are kept, without duplicates, in
  first-seen order. The definitions of this section write that description down on its own
  terms. They use none of \<^const>\<open>toLowerCase\<close>, \<^const>\<open>stripNonAlnum\<close>,
  \<^const>\<open>isDigitsOnly\<close> and \<^const>\<open>dedup_first\<close>, by which the source is modelled, so that
  the agreement of the two is a statement about each of them.
\<close>

text \<open>
  Lower-casing, as a table: the capital letters among the characters of a transcript, and the
  small letter of each at the same position.
\<close>

definition SPEC_UPPER_CASE :: string where
  "SPEC_UPPER_CASE =
     ''ABCDEFGHIJKLMNOPQRSTUVWXYZ'' @
     [CHR 0xC0, CHR 0xC1, CHR 0xC2, CHR 0xC3, CHR 0xC4, CHR 0xC5, CHR 0xC6, CHR 0xC7,
      CHR 0xC8, CHR 0xC9, CHR 0xCA, CHR 0xCB, CHR 0xCC, CHR 0xCD, CHR 0xCE, CHR 0xCF,
      CHR 0xD0, CHR 0xD1, CHR 0xD2, CHR 0xD3, CHR 0xD4, CHR 0xD5, CHR 0xD6,
      CHR 0xD8, CHR 0xD9, CHR 0xDA, CHR 0xDB, CHR 0xDC, CHR 0xDD, CHR 0xDE]"

definition SPEC_LOWER_CASE :: string where
  "SPEC_LOWER_CASE =
     ''abcdefghijklmnopqrstuvwxyz'' @
     [CHR 0xE0, CHR 0xE1, CHR 0xE2, CHR 0xE3, CHR 0xE4, CHR 0xE5, CHR 0xE6, CHR 0xE7,
      CHR 0xE8, CHR 0xE9, CHR 0xEA, CHR 0xEB, CHR 0xEC, CHR 0xED, CHR 0xEE, CHR 0xEF,
      CHR 0xF0, CHR 0xF1, CHR 0xF2, CHR 0xF3, CHR 0xF4, CHR 0xF5, CHR 0xF6,
      CHR 0xF8, CHR 0xF9, CHR 0xFA, CHR 0xFB, CHR 0xFC, CHR 0xFD, CHR 0xFE]"

definition spec_lower_char :: "char \<Rightarrow> char" where
  "spec_lower_char c =
     (case map_of (zip SPEC_UPPER_CASE SPEC_LOWER_CASE) c of Some l \<Rightarrow> l | None \<Rightarrow> c)"

text \<open>The alphanumerics of a lower-cased token, and the digits, as the lists of their members.\<close>

definition spec_alnum :: "char \<Rightarrow> bool" where
  "spec_alnum c = (c \<in> set ''abcdefghijklmnopqrstuvwxyz0123456789'')"

definition spec_digit :: "char \<Rightarrow> bool" where
  "spec_digit c = (c \<in> set ''0123456789'')"

text \<open>
  Stripping the leading non-alphanumerics: characters are dropped up to the first
  alphanumeric one.
\<close>

fun spec_strip_leading :: "string \<Rightarrow> string" where
  "spec_strip_leading [] = []"
| "spec_strip_leading (c # cs) = (if spec_alnum c then c # cs else spec_strip_leading cs)"

text \<open>
  Stripping the trailing non-alphanumerics: a character is dropped when it is not
  alphanumeric and nothing is left of what follows it.
\<close>

fun spec_strip_trailing :: "string \<Rightarrow> string" where
  "spec_strip_trailing [] = []"
| "spec_strip_trailing (c # cs) =
     (if spec_strip_trailing cs = [] \<and> \<not> spec_alnum c then [] else c # spec_strip_trailing cs)"

definition spec_normalize :: "string \<Rightarrow> string" where
  "spec_normalize w = spec_strip_trailing (spec_strip_leading (map spec_lower_char w))"

text \<open>A token of pure digits: at least one character, digits only.\<close>

definition spec_pure_digits :: "string \<Rightarrow> bool" where
  "spec_pure_digits w = (w \<noteq> [] \<and> (\<forall>c\<in>set w. spec_digit c))"

text \<open>
  First-seen order: the words are read from left to right, and a word is put at the end of
  the result unless it is there already.
\<close>

definition spec_first_seen :: "'a list \<Rightarrow> 'a list" where
  "spec_first_seen xs = fold (\<lambda>x seen. if x \<in> set seen then seen else seen @ [x]) xs []"

definition spec_topic_keywords :: "string \<Rightarrow> string list" where
  "spec_topic_keywords transcript =
     spec_first_seen
       (filter (\<lambda>w. 3 \<le> length w \<and> \<not> spec_pure_digits w \<and> w \<notin> set SINGLE_TOPIC_STOP_WORDS)
         (map spec_normalize (spec_tokens transcript)))"

text \<open>Auxiliary views of the compacted transcript, used in the proofs only.\<close>

definition trimEnd :: "string \<Rightarrow> string" where
  "trimEnd s = rev (dropWhile isWhiteSpace (rev s))"

definition hcomp :: "string \<Rightarrow> string" where
  "hcomp t = collapse_ws (dropWhile isWhiteSpace (trimEnd t))"

definition kcomp :: "string \<Rightarrow> string" where
  "kcomp t = collapse_ws (trimEnd t)"

section \<open>The anchor merge of webhook.ts\<close>

text \<open>
  \<^verbatim>\<open>mergeTopicKeywords\<close>: the loop over the transcript keywords, with \<^verbatim>\<open>merged\<close> and \<^verbatim>\<open>seen\<close>
  as its variables. A keyword already seen is skipped (\<^verbatim>\<open>continue\<close>); otherwise it is
  pushed, and the loop is left (\<^verbatim>\<open>break\<close>) when \<^verbatim>\<open>merged\<close> has reached the limit.
\<close>

fun merge_loop :: "string list \<Rightarrow> string list \<Rightarrow> string list \<Rightarrow> string list" where
  "merge_loop merged seen [] = merged"
| "merge_loop merged seen (keyword # rest) =
     (if keyword \<in> set seen then merge_loop merged seen rest
      else
        let merged' = merged @ [keyword]; seen' = keyword # seen in
        if length merged' \<ge> SINGLE_TOPIC_ANCHOR_KEYWORD_LIMIT then merged'
        else merge_loop merged' seen' rest)"

definition mergeTopicKeywords :: "string list \<Rightarrow> string list \<Rightarrow> string list" where
  "mergeTopicKeywords anchorKeywords tk = merge_loop anchorKeywords anchorKeywords tk"

section \<open>The response cue controller of response-cues.ts\<close>

record cue_plan =
  enabled :: bool
  acknowledgement :: "string option"
  progress :: "string option"
  progressDelayMs :: nat

datatype cue_kind = Acknowledgement | Progress

type_synonym cue = "cue_kind \<times> string"

text \<open>
  The state of one controller: the two variables of the closure, \<^verbatim>\<open>settled\<close> and
  \<^verbatim>\<open>progressTimer\<close> (a timer handle or \<^verbatim>\<open>null\<close>), and the part of the timer environment
  the controller has filled: the timers set through \<^verbatim>\<open>setTimeoutImpl\<close> that are still
  scheduled, each with its handle and the milliseconds left, and the next fresh handle.
  A handle is a truthy value, as the \<^verbatim>\<open>Timeout\<close> objects of Node are.
\<close>

record cue_ctl =
  settled :: bool
  progressTimer :: "nat option"
  scheduled :: "(nat \<times> nat) list"
  nextHandle :: nat

definition new_cue_ctl :: cue_ctl where
  "new_cue_ctl = \<lparr>settled = False, progressTimer = None, scheduled = [], nextHandle = 0\<rparr>"

text \<open>\<^verbatim>\<open>!text\<close> for a \<^verbatim>\<open>string | null\<close>: true for \<^verbatim>\<open>null\<close> and for the empty string.\<close>

definition falsy_text :: "string option \<Rightarrow> bool" where
  "falsy_text t = (case t of None \<Rightarrow> True | Some u \<Rightarrow> u = [])"

text \<open>
  Each operation returns the new state of the controller and the cues it has handed to
  \<^verbatim>\<open>speak\<close>, in order. \<^verbatim>\<open>maybeSpeakAcknowledgement\<close> awaits \<^verbatim>\<open>speak\<close>: the cue is part of
  the result of the call.
\<close>

definition maybeSpeakAcknowledgement :: "cue_plan \<Rightarrow> cue_ctl \<Rightarrow> cue_ctl \<times> cue list" where
  "maybeSpeakAcknowledgement plan c =
     (if \<not> enabled plan \<or> falsy_text (acknowledgement plan) \<or> settled c then (c, [])
      else (c, [(Acknowledgement, the (acknowledgement plan))]))"

definition scheduleProgressCue :: "cue_plan \<Rightarrow> cue_ctl \<Rightarrow> cue_ctl \<times> cue list" where
  "scheduleProgressCue plan c =
     (if \<not> enabled plan \<or> falsy_text (progress plan) \<or> settled c \<or> progressTimer c \<noteq> None
      then (c, [])
      else (c\<lparr>progressTimer := Some (nextHandle c),
              scheduled := scheduled c @ [(nextHandle c, progressDelayMs plan)],
              nextHandle := Suc (nextHandle c)\<rparr>, []))"

definition settle :: "cue_ctl \<Rightarrow> cue_ctl" where
  "settle c =
     (let c1 = c\<lparr>settled := True\<rparr> in
      case progressTimer c1 of
        None \<Rightarrow> c1
      | Some h \<Rightarrow> c1\<lparr>scheduled := filter (\<lambda>t. fst t \<noteq> h) (scheduled c1), progressTimer := None\<rparr>)"

text \<open>The callback handed to \<^verbatim>\<open>setTimeoutImpl\<close>.\<close>

definition progress_callback :: "cue_plan \<Rightarrow> cue_ctl \<Rightarrow> cue list" where
  "progress_callback plan c =
     (if settled c \<or> falsy_text (progress plan) then [] else [(Progress, the (progress plan))])"

text \<open>
  Time passes: every scheduled timer with no more than \<open>d\<close> milliseconds left runs its
  callback and leaves the environment, the others have \<open>d\<close> milliseconds less to wait.
\<close>

definition elapse :: "nat \<Rightarrow> cue_plan \<Rightarrow> cue_ctl \<Rightarrow> cue_ctl \<times> cue list" where
  "elapse d plan c =
     (c\<lparr>scheduled := map (\<lambda>t. (fst t, snd t - d)) (filter (\<lambda>t. snd t > d) (scheduled c))\<rparr>,
      concat (map (\<lambda>t. progress_callback plan c) (filter (\<lambda>t. snd t \<le> d) (scheduled c))))"

text \<open>A controller in use: any sequence of calls of its three operations and of time passing.\<close>

datatype cue_op = MaybeSpeakAcknowledgement | ScheduleProgressCue | Settle | Elapse nat

fun cue_step :: "cue_plan \<Rightarrow> cue_op \<Rightarrow> cue_ctl \<Rightarrow> cue_ctl \<times> cue list" where
  "cue_step plan MaybeSpeakAcknowledgement c = maybeSpeakAcknowledgement plan c"
| "cue_step plan ScheduleProgressCue c = scheduleProgressCue plan c"
| "cue_step plan Settle c = (settle c, [])"
| "cue_step plan (Elapse d) c = elapse d plan c"

text \<open>The state after a sequence of operations and everything spoken on the way.\<close>

fun run_cues :: "cue_plan \<Rightarrow> cue_op list \<Rightarrow> cue_ctl \<times> cue list \<Rightarrow> cue_ctl \<times> cue list" where
  "run_cues plan [] cl = cl"
| "run_cues plan (op # ops) (c, spoken) =
     (let (c', out) = cue_step plan op c in run_cues plan ops (c', spoken @ out))"

fun elapsed_ms :: "cue_op list \<Rightarrow> nat" where
  "elapsed_ms [] = 0"
| "elapsed_ms (Elapse d # ops) = d + elapsed_ms ops"
| "elapsed_ms (_ # ops) = elapsed_ms ops"



section \<open>The webhook server of webhook.ts: topic state and response generations\<close>

record single_topic_config =
  st_enabled :: bool
  st_minKeywords :: real
  st_warningMessage :: "string option"
  st_endCallOnDrift :: bool
  st_maxDriftCount :: nat

text \<open>
  The part of \<^verbatim>\<open>VoiceCallConfig\<close> the server reads here: \<^verbatim>\<open>config.singleTopic\<close> (it may be
  absent), the cue plan that \<^verbatim>\<open>resolveVoiceCallResponseCuePlan(config.responseCues)\<close>
  yields, and whether the server was given a core configuration.
\<close>

record server_config =
  singleTopic :: "single_topic_config option"
  cuePlan :: cue_plan
  hasCoreConfig :: bool

record single_topic_call_state =
  anchorKeywords :: "string list"
  driftCount :: nat

text \<open>
  \<^verbatim>\<open>PendingVoiceResponseState\<close>. The optional \<^verbatim>\<open>settleCues\<close> is the closure
  \<^verbatim>\<open>() => { cues.settle() }\<close> of one invocation of \<^verbatim>\<open>handleInboundResponse\<close>; it is
  represented by the number of that invocation.
\<close>

record pending_voice_response_state =
  generation :: nat
  disconnected :: bool
  settleCues :: "nat option"

text \<open>
  An invocation of \<^verbatim>\<open>handleInboundResponse\<close> that has passed its first two checks: its call,
  its generation, its cue controller, and the \<^verbatim>\<open>await\<close> it is suspended at.
\<close>

datatype response_pc = AwaitImport | AwaitAcknowledgement | AwaitResponse | AwaitSpeak | Finished

record inbound_response =
  r_callId :: string
  r_generation :: nat
  r_cues :: cue_ctl
  r_pc :: response_pc

record webhook_server =
  pendingResponses :: "string \<rightharpoonup> pending_voice_response_state"
  singleTopicStates :: "string \<rightharpoonup> single_topic_call_state"
  responses :: "nat \<rightharpoonup> inbound_response"
  responseCount :: nat

definition new_webhook_server :: webhook_server where
  "new_webhook_server =
     \<lparr>pendingResponses = Map.empty, singleTopicStates = Map.empty, responses = Map.empty,
      responseCount = 0\<rparr>"

text \<open>
  What the server does to the outside: the calls of \<^verbatim>\<open>manager.speak\<close> and \<^verbatim>\<open>manager.endCall\<close>
  and the log lines that matter below. A cue and an answer carry the generation of the
  invocation that speaks them; the source passes the call and the text only, the generation
  is recorded here to state on whose behalf something is spoken.
\<close>

datatype action =
    SpeakCue string nat cue_kind string
  | SpeakAnswer string nat string
  | SpeakWarning string string
  | EndCall string
  | LogStale string
  | LogError string

definition cue_actions :: "string \<Rightarrow> nat \<Rightarrow> cue list \<Rightarrow> action list" where
  "cue_actions callId g cs = map (\<lambda>c. SpeakCue callId g (fst c) (snd c)) cs"

text \<open>Running the closure \<^verbatim>\<open>() => { cues.settle() }\<close> of invocation \<open>i\<close>.\<close>

definition settle_response :: "nat \<Rightarrow> webhook_server \<Rightarrow> webhook_server" where
  "settle_response i s =
     (case responses s i of
        None \<Rightarrow> s
      | Some r \<Rightarrow> s\<lparr>responses := (responses s)(i \<mapsto> r\<lparr>r_cues := settle (r_cues r)\<rparr>)\<rparr>)"

definition run_settleCues :: "nat option \<Rightarrow> webhook_server \<Rightarrow> webhook_server" where
  "run_settleCues sc s = (case sc of None \<Rightarrow> s | Some i \<Rightarrow> settle_response i s)"

definition beginVoiceResponseGeneration :: "string \<Rightarrow> webhook_server \<Rightarrow> nat \<times> webhook_server" where
  "beginVoiceResponseGeneration callId s =
     (let existing = pendingResponses s callId;
          s1 = (case existing of None \<Rightarrow> s | Some st \<Rightarrow> run_settleCues (settleCues st) s);
          g = (case existing of None \<Rightarrow> 0 | Some st \<Rightarrow> generation st) + 1
      in (g, s1\<lparr>pendingResponses := (pendingResponses s1)
                 (callId \<mapsto> \<lparr>generation = g, disconnected = False, settleCues = None\<rparr>)\<rparr>))"

definition registerCueController :: "string \<Rightarrow> nat \<Rightarrow> nat \<Rightarrow> webhook_server \<Rightarrow> webhook_server" where
  "registerCueController callId g i s =
     (case pendingResponses s callId of
        None \<Rightarrow> settle_response i s
      | Some st \<Rightarrow>
          if disconnected st \<or> generation st \<noteq> g then settle_response i s
          else s\<lparr>pendingResponses := (pendingResponses s)(callId \<mapsto> st\<lparr>settleCues := Some i\<rparr>)\<rparr>)"

definition clearCueController :: "string \<Rightarrow> nat \<Rightarrow> webhook_server \<Rightarrow> webhook_server" where
  "clearCueController callId g s =
     (case pendingResponses s callId of
        None \<Rightarrow> s
      | Some st \<Rightarrow>
          if generation st \<noteq> g then s
          else s\<lparr>pendingResponses := (pendingResponses s)(callId \<mapsto> st\<lparr>settleCues := None\<rparr>)\<rparr>)"

definition markResponseDisconnected :: "string \<Rightarrow> webhook_server \<Rightarrow> webhook_server" where
  "markResponseDisconnected callId s =
     (case pendingResponses s callId of
        None \<Rightarrow> s
      | Some st \<Rightarrow>
          let s1 = run_settleCues (settleCues st) s in
          s1\<lparr>pendingResponses := (pendingResponses s1)
               (callId \<mapsto> \<lparr>generation = generation st + 1, disconnected = True,
                            settleCues = None\<rparr>)\<rparr>)"

definition isVoiceResponseGenerationCurrent :: "string \<Rightarrow> nat \<Rightarrow> webhook_server \<Rightarrow> bool" where
  "isVoiceResponseGenerationCurrent callId g s =
     (case pendingResponses s callId of
        None \<Rightarrow> False
      | Some st \<Rightarrow> \<not> disconnected st \<and> generation st = g)"

definition clearSingleTopicState :: "string \<Rightarrow> webhook_server \<Rightarrow> webhook_server" where
  "clearSingleTopicState callId s = s\<lparr>singleTopicStates := (singleTopicStates s)(callId := None)\<rparr>"

text \<open>
  \<^verbatim>\<open>shouldAutoRespondToTranscript\<close>: the result, the server afterwards and the calls made.
  The two awaits of the drift branch (speaking the warning, ending the call) are run to
  their end within the call.
\<close>

definition shouldAutoRespondToTranscript ::
  "server_config \<Rightarrow> string \<Rightarrow> string \<Rightarrow> webhook_server \<Rightarrow> bool \<times> webhook_server \<times> action list" where
  "shouldAutoRespondToTranscript cfg callId transcript s =
     (case singleTopic cfg of
        None \<Rightarrow> (True, s, [])
      | Some st \<Rightarrow>
          if \<not> st_enabled st then (True, s, [])
          else
            let existing = (case singleTopicStates s callId of
                              Some e \<Rightarrow> e
                            | None \<Rightarrow> \<lparr>anchorKeywords = [], driftCount = 0\<rparr>);
                decision = evaluateSingleTopicTranscript transcript (anchorKeywords existing)
                             (st_minKeywords st)
            in
            if establishAnchor decision \<or> allow decision then
              (True,
               s\<lparr>singleTopicStates := (singleTopicStates s)
                   (callId \<mapsto> \<lparr>anchorKeywords =
                                  mergeTopicKeywords (anchorKeywords existing)
                                    (transcriptKeywords decision),
                                driftCount = 0\<rparr>)\<rparr>,
               [])
            else
              let dc = driftCount existing + 1;
                  s1 = s\<lparr>singleTopicStates := (singleTopicStates s)
                         (callId \<mapsto> \<lparr>anchorKeywords = anchorKeywords existing,
                                      driftCount = dc\<rparr>)\<rparr>;
                  warningMessage = (case st_warningMessage st of Some m \<Rightarrow> trim m | None \<Rightarrow> []);
                  warn = (if length warningMessage > 0 then [SpeakWarning callId warningMessage]
                          else [])
              in
              if st_endCallOnDrift st \<and> dc \<ge> st_maxDriftCount st then
                (False, clearSingleTopicState callId (markResponseDisconnected callId s1),
                 warn @ [EndCall callId])
              else (False, s1, warn))"

text \<open>
  \<^verbatim>\<open>handleInboundResponse\<close> up to its first \<^verbatim>\<open>await\<close>. \<open>callFound\<close> says whether
  \<^verbatim>\<open>manager.getCall(callId)\<close> returned a call.
\<close>

definition start_response ::
  "server_config \<Rightarrow> string \<Rightarrow> bool \<Rightarrow> webhook_server \<Rightarrow> webhook_server \<times> action list" where
  "start_response cfg callId callFound s =
     (if \<not> callFound then (s, [LogError callId])
      else if \<not> hasCoreConfig cfg then (s, [LogError callId])
      else
        let (g, s1) = beginVoiceResponseGeneration callId s;
            i = responseCount s1;
            s2 = s1\<lparr>responses := (responses s1)
                      (i \<mapsto> \<lparr>r_callId = callId, r_generation = g, r_cues = new_cue_ctl,
                               r_pc = AwaitImport\<rparr>),
                    responseCount := Suc i\<rparr>
        in (registerCueController callId g i s2, []))"

text \<open>The \<^verbatim>\<open>finally\<close> block of invocation \<open>i\<close>; the invocation is over afterwards.\<close>

definition finish_response :: "nat \<Rightarrow> webhook_server \<Rightarrow> webhook_server" where
  "finish_response i s =
     (case responses s i of
        None \<Rightarrow> s
      | Some r \<Rightarrow>
          let s1 = settle_response i (clearCueController (r_callId r) (r_generation r) s) in
          (case responses s1 i of
             None \<Rightarrow> s1
           | Some r1 \<Rightarrow> s1\<lparr>responses := (responses s1)(i \<mapsto> r1\<lparr>r_pc := Finished\<rparr>)\<rparr>))"

text \<open>
  What an \<^verbatim>\<open>await\<close> resumes with: the awaited promise is fulfilled, or it is rejected, or,
  for the response generator, it is fulfilled with a result of an optional error and an
  optional text.
\<close>

datatype outcome = Fulfilled | Rejected | Result "string option" "string option"

definition update_response ::
  "nat \<Rightarrow> inbound_response \<Rightarrow> webhook_server \<Rightarrow> webhook_server" where
  "update_response i r s = s\<lparr>responses := (responses s)(i \<mapsto> r)\<rparr>"

text \<open>Invocation \<open>i\<close> of \<^verbatim>\<open>handleInboundResponse\<close> runs from the await it is at to the next one.\<close>

definition resume_response ::
  "server_config \<Rightarrow> nat \<Rightarrow> outcome \<Rightarrow> webhook_server \<Rightarrow> webhook_server \<times> action list" where
  "resume_response cfg i out s =
     (case responses s i of
        None \<Rightarrow> (s, [])
      | Some r \<Rightarrow>
          let callId = r_callId r; g = r_generation r in
          (case r_pc r of
             Finished \<Rightarrow> (s, [])
           | AwaitImport \<Rightarrow>
               if out = Rejected then (finish_response i s, [LogError callId])
               else if \<not> isVoiceResponseGenerationCurrent callId g s then (finish_response i s, [])
               else
                 let (c, spoken) = maybeSpeakAcknowledgement (cuePlan cfg) (r_cues r) in
                 (update_response i (r\<lparr>r_cues := c, r_pc := AwaitAcknowledgement\<rparr>) s,
                  cue_actions callId g spoken)
           | AwaitAcknowledgement \<Rightarrow>
               if out = Rejected then (finish_response i s, [LogError callId])
               else if \<not> isVoiceResponseGenerationCurrent callId g s then (finish_response i s, [])
               else
                 let (c, spoken) = scheduleProgressCue (cuePlan cfg) (r_cues r) in
                 (update_response i (r\<lparr>r_cues := c, r_pc := AwaitResponse\<rparr>) s,
                  cue_actions callId g spoken)
           | AwaitResponse \<Rightarrow>
               if out = Rejected then (finish_response i s, [LogError callId])
               else if \<not> isVoiceResponseGenerationCurrent callId g s
                 then (finish_response i s, [LogStale callId])
               else
                 (case out of
                    Result err text \<Rightarrow>
                      if \<not> falsy_text err then (finish_response i s, [LogError callId])
                      else if \<not> falsy_text text then
                        (update_response i (r\<lparr>r_pc := AwaitSpeak\<rparr>) s,
                         [SpeakAnswer callId g (the text)])
                      else (finish_response i s, [])
                  | _ \<Rightarrow> (finish_response i s, []))
           | AwaitSpeak \<Rightarrow>
               if out = Rejected then (finish_response i s, [LogError callId])
               else (finish_response i s, [])))"

text \<open>Time passes for the timers of invocation \<open>i\<close>.\<close>

definition elapse_response ::
  "server_config \<Rightarrow> nat \<Rightarrow> nat \<Rightarrow> webhook_server \<Rightarrow> webhook_server \<times> action list" where
  "elapse_response cfg i d s =
     (case responses s i of
        None \<Rightarrow> (s, [])
      | Some r \<Rightarrow>
          let (c, spoken) = elapse d (cuePlan cfg) (r_cues r) in
          (update_response i (r\<lparr>r_cues := c\<rparr>) s,
           cue_actions (r_callId r) (r_generation r) spoken))"

text \<open>
  Everything that touches the two tables of the server, in any order: an utterance is
  judged by the topic guard, a response is started, a suspended response resumes, time
  passes, a call is marked disconnected (by the stream's \<^verbatim>\<open>onDisconnect\<close> and by
  \<^verbatim>\<open>handleRequest\<close> after a terminal event), its topic state is cleared.
\<close>

datatype server_event =
    Utterance string string
  | HandleInboundResponse string bool
  | Resume nat outcome
  | TimePasses nat nat
  | MarkResponseDisconnected string
  | ClearSingleTopicState string

fun server_step ::
  "server_config \<Rightarrow> server_event \<Rightarrow> webhook_server \<Rightarrow> webhook_server \<times> action list" where
  "server_step cfg (Utterance callId transcript) s =
     snd (shouldAutoRespondToTranscript cfg callId transcript s)"
| "server_step cfg (HandleInboundResponse callId callFound) s = start_response cfg callId callFound s"
| "server_step cfg (Resume i out) s = resume_response cfg i out s"
| "server_step cfg (TimePasses i d) s = elapse_response cfg i d s"
| "server_step cfg (MarkResponseDisconnected callId) s = (markResponseDisconnected callId s, [])"
| "server_step cfg (ClearSingleTopicState callId) s = (clearSingleTopicState callId s, [])"

fun run_server :: "server_config \<Rightarrow> server_event list \<Rightarrow> webhook_server \<Rightarrow> webhook_server" where
  "run_server cfg [] s = s"
| "run_server cfg (ev # evs) s = run_server cfg evs (fst (server_step cfg ev s))"

text \<open>The call and generation an action speaks for, when it is a cue or an answer.\<close>

fun speaks_for :: "action \<Rightarrow> (string \<times> nat) option" where
  "speaks_for (SpeakCue callId g k t) = Some (callId, g)"
| "speaks_for (SpeakAnswer callId g t) = Some (callId, g)"
| "speaks_for _ = None"

section \<open>Invariants of the response generations\<close>

text \<open>
  Every invocation of \<^verbatim>\<open>handleInboundResponse\<close> that exists has a number below the count;
  its call has an entry in \<^verbatim>\<open>pendingResponses\<close> whose generation is at least its own, and
  greater once the call is disconnected; and while its cue controller is not settled, its
  generation is the recorded one and its \<^verbatim>\<open>settle\<close> is the registered \<^verbatim>\<open>settleCues\<close>.
\<close>

definition good_response :: "webhook_server \<Rightarrow> nat \<Rightarrow> inbound_response \<Rightarrow> bool" where
  "good_response s i r =
     (i < responseCount s
      \<and> (\<exists>st. pendingResponses s (r_callId r) = Some st \<and> r_generation r \<le> generation st
             \<and> (disconnected st \<longrightarrow> r_generation r < generation st)
             \<and> (\<not> settled (r_cues r) \<longrightarrow> r_generation r = generation st \<and> settleCues st = Some i)))"

text \<open>Two invocations for the same call never have the same generation.\<close>

definition distinct_generations :: "webhook_server \<Rightarrow> bool" where
  "distinct_generations s =
     (\<forall>i j ri rj. responses s i = Some ri \<and> responses s j = Some rj \<and> i \<noteq> j
        \<and> r_callId ri = r_callId rj \<longrightarrow> r_generation ri \<noteq> r_generation rj)"

definition response_inv :: "webhook_server \<Rightarrow> bool" where
  "response_inv s = ((\<forall>i r. responses s i = Some r \<longrightarrow> good_response s i r) \<and> distinct_generations s)"

text \<open>
  An invocation as it was and as it is: the same call and generation, and settled cues
  stay settled.
\<close>

definition same_response :: "inbound_response \<Rightarrow> inbound_response \<Rightarrow> bool" where
  "same_response r r' = (r_callId r' = r_callId r \<and> r_generation r' = r_generation r
      \<and> (settled (r_cues r) \<longrightarrow> settled (r_cues r')))"

text \<open>
  The two steps of \<^verbatim>\<open>beginVoiceResponseGeneration\<close> taken apart: the server after the old
  \<^verbatim>\<open>settleCues\<close> has run, and the generation handed out.
\<close>

definition begun :: "string \<Rightarrow> webhook_server \<Rightarrow> webhook_server" where
  "begun c s = (case pendingResponses s c of None \<Rightarrow> s | Some st \<Rightarrow> run_settleCues (settleCues st) s)"

definition next_generation :: "string \<Rightarrow> webhook_server \<Rightarrow> nat" where
  "next_generation c s = (case pendingResponses s c of None \<Rightarrow> 0 | Some st \<Rightarrow> generation st) + 1"

text \<open>A generation of a call is superseded when the call's recorded generation is greater.\<close>

definition superseded :: "string \<Rightarrow> nat \<Rightarrow> webhook_server \<Rightarrow> bool" where
  "superseded c g s = (\<exists>st. pendingResponses s c = Some st \<and> g < generation st)"

text \<open>A configuration to run the server on: cues enabled, no topic guard.\<close>

definition demo_config :: server_config where
  "demo_config =
     \<lparr>singleTopic = None,
      cuePlan = \<lparr>enabled = True, acknowledgement = Some ''Got it, checking now.'',
                 progress = Some ''Still working on that.'', progressDelayMs = 6000\<rparr>,
      hasCoreConfig = True\<rparr>"

text \<open>A configuration with the topic guard enabled and a threshold of two keywords.\<close>

definition drift_config :: server_config where
  "drift_config =
     \<lparr>singleTopic = Some \<lparr>st_enabled = True, st_minKeywords = 2, st_warningMessage = None,
                          st_endCallOnDrift = False, st_maxDriftCount = 3\<rparr>,
      cuePlan = \<lparr>enabled = False, acknowledgement = None, progress = None, progressDelayMs = 6000\<rparr>,
      hasCoreConfig = True\<rparr>"

section \<open>Normalized events and call records\<close>

text \<open>
  Modelled from the spec: the types \<^verbatim>\<open>NormalizedEvent\<close> and \<^verbatim>\<open>CallRecord\<close> of types.ts, which
  is not among the sources. The fields are those of section 3 of the specification and of
  the events and records the tests build. An absent optional field is \<^const>\<open>None\<close>.
\<close>

datatype event_type = CallInitiated | CallAnswered | CallSpeech | CallEnded | CallError

datatype call_direction = Inbound | Outbound

record normalized_event =
  ev_id :: string
  ev_type :: event_type
  ev_callId :: string
  ev_providerCallId :: "string option"
  ev_timestamp :: nat
  ev_direction :: "call_direction option"
  ev_from :: "string option"
  ev_to :: "string option"
  ev_transcript :: "string option"
  ev_isFinal :: "bool option"
  ev_reason :: "string option"
  ev_error :: "string option"
  ev_retryable :: "bool option"

datatype call_state = Initiated | Ringing | Answered | Active | Ended | ErrorTerminal

datatype speaker = Bot | User

record transcript_entry =
  te_timestamp :: nat
  te_speaker :: speaker
  te_text :: string
  te_isFinal :: bool

record call_record =
  cr_callId :: string
  cr_providerCallId :: "string option"
  cr_direction :: call_direction
  cr_state :: call_state
  cr_from :: "string option"
  cr_to :: "string option"
  cr_startedAt :: nat
  cr_transcript :: "transcript_entry list"
  cr_processedEventIds :: "string list"
  cr_endReason :: "string option"
  cr_endedCallbackFired :: bool

text \<open>
  Truthiness of an optional string and of an optional boolean, as \<^verbatim>\<open>event.providerCallId ?\<close>
  and \<^verbatim>\<open>!event.retryable\<close> test them.
\<close>

definition truthy_string :: "string option \<Rightarrow> bool" where
  "truthy_string x = (case x of None \<Rightarrow> False | Some t \<Rightarrow> t \<noteq> [])"

definition truthy_bool :: "bool option \<Rightarrow> bool" where
  "truthy_bool x = (case x of None \<Rightarrow> False | Some b \<Rightarrow> b)"

section \<open>The webhook endpoint of webhook.ts\<close>

text \<open>
  An HTTP request as \<^verbatim>\<open>handleRequest\<close> sees it: the path name the \<^verbatim>\<open>URL\<close> constructor
  yields (none when it throws), the method, and what reading the body comes to.
\<close>

datatype body_read = BodyRead string | PayloadTooLarge | RequestBodyTimeout | BodyReadFailed

record http_request =
  req_pathname :: "string option"
  req_url :: string
  req_method :: string
  req_headers :: "(string \<times> string) list"
  req_body :: body_read

record webhook_context =
  ctx_headers :: "(string \<times> string) list"
  ctx_rawBody :: string
  ctx_url :: string
  ctx_method :: string

record webhook_verification =
  ok :: bool
  reason :: "string option"

record webhook_parse_result =
  events :: "normalized_event list"
  pr_statusCode :: nat
  providerResponseBody :: "string option"
  providerResponseHeaders :: "(string \<times> string) list"

text \<open>The two capabilities of the provider adapter the endpoint uses.\<close>

record provider_adapter =
  verifyWebhook :: "webhook_context \<Rightarrow> webhook_verification"
  parseWebhookEvent :: "webhook_context \<Rightarrow> webhook_parse_result"

text \<open>
  The call manager as the endpoint uses it, over any type of manager states: the two
  lookups and \<^verbatim>\<open>processEvent\<close>, which returns the state afterwards and whether it threw.
\<close>

record 'm manager_interface =
  getCall :: "'m \<Rightarrow> string \<Rightarrow> call_record option"
  getCallByProviderCallId :: "'m \<Rightarrow> string \<Rightarrow> call_record option"
  processEvent :: "normalized_event \<Rightarrow> 'm \<Rightarrow> 'm \<times> bool"

record http_response =
  statusCode :: nat
  responseBody :: string
  responseHeaders :: "(string \<times> string) list"

text \<open>
  The calls the endpoint makes to the provider adapter and to the call manager, in order.
\<close>

datatype endpoint_call = VerifyWebhook | ParseWebhookEvent | ProcessEvent normalized_event

text \<open>The body of the loop over \<^verbatim>\<open>result.events\<close>.\<close>

definition handle_event ::
  "'m manager_interface \<Rightarrow> normalized_event \<Rightarrow> 'm \<times> webhook_server \<Rightarrow> 'm \<times> webhook_server" where
  "handle_event mgr event ms =
     (let m = fst ms; s = snd ms;
          callBeforeEvent =
            (case (if truthy_string (ev_providerCallId event)
                   then getCallByProviderCallId mgr m (the (ev_providerCallId event)) else None) of
               Some c \<Rightarrow> Some c
             | None \<Rightarrow> getCall mgr m (ev_callId event));
          m' = fst (processEvent mgr event m)
      in
      if ev_type event = CallEnded \<or> (ev_type event = CallError \<and> \<not> truthy_bool (ev_retryable event))
      then
        let terminalCallId = (case callBeforeEvent of Some c \<Rightarrow> cr_callId c | None \<Rightarrow> ev_callId event)
        in (m', clearSingleTopicState terminalCallId (markResponseDisconnected terminalCallId s))
      else (m', s))"

fun handle_events ::
  "'m manager_interface \<Rightarrow> normalized_event list \<Rightarrow> 'm \<times> webhook_server \<Rightarrow> 'm \<times> webhook_server" where
  "handle_events mgr [] ms = ms"
| "handle_events mgr (event # rest) ms = handle_events mgr rest (handle_event mgr event ms)"

text \<open>
  The configured path prefix, and the text \<^verbatim>\<open>requestBodyErrorToText("REQUEST_BODY_TIMEOUT")\<close>
  of the plugin SDK, which is outside the repository.
\<close>

record endpoint_settings =
  webhookPath :: string
  requestBodyTimeoutText :: string

text \<open>
  \<^verbatim>\<open>handleRequest\<close>: the response (none when the function throws, which the server created
  in \<^verbatim>\<open>start\<close> answers with 500), the manager and the server afterwards, and the calls made
  to \<^verbatim>\<open>verifyWebhook\<close>, \<^verbatim>\<open>parseWebhookEvent\<close> and \<^verbatim>\<open>processEvent\<close>.
\<close>

definition context_of :: "http_request \<Rightarrow> string \<Rightarrow> webhook_context" where
  "context_of req body =
     \<lparr>ctx_headers = req_headers req, ctx_rawBody = body, ctx_url = req_url req,
      ctx_method = ''POST''\<rparr>"

definition handleRequest ::
  "provider_adapter \<Rightarrow> 'm manager_interface \<Rightarrow> endpoint_settings \<Rightarrow> http_request
     \<Rightarrow> 'm \<times> webhook_server
     \<Rightarrow> http_response option \<times> ('m \<times> webhook_server) \<times> endpoint_call list" where
  "handleRequest provider mgr env req ms =
     (case req_pathname req of
        None \<Rightarrow> (None, ms, [])
      | Some pathname \<Rightarrow>
          if take (length (webhookPath env)) pathname \<noteq> webhookPath env then
            (Some \<lparr>statusCode = 404, responseBody = ''Not Found'', responseHeaders = []\<rparr>, ms, [])
          else if req_method req \<noteq> ''POST'' then
            (Some \<lparr>statusCode = 405, responseBody = ''Method Not Allowed'', responseHeaders = []\<rparr>,
             ms, [])
          else
            (case req_body req of
               PayloadTooLarge \<Rightarrow>
                 (Some \<lparr>statusCode = 413, responseBody = ''Payload Too Large'',
                        responseHeaders = []\<rparr>, ms, [])
             | RequestBodyTimeout \<Rightarrow>
                 (Some \<lparr>statusCode = 408, responseBody = requestBodyTimeoutText env,
                        responseHeaders = []\<rparr>, ms, [])
             | BodyReadFailed \<Rightarrow> (None, ms, [])
             | BodyRead body \<Rightarrow>
                 let ctx = context_of req body;
                     verification = verifyWebhook provider ctx
                 in
                 if \<not> ok verification then
                   (Some \<lparr>statusCode = 401, responseBody = ''Unauthorized'', responseHeaders = []\<rparr>,
                    ms, [VerifyWebhook])
                 else
                   let result = parseWebhookEvent provider ctx;
                       ms' = handle_events mgr (events result) ms
                   in
                   (Some \<lparr>statusCode = (if pr_statusCode result = 0 then 200
                                          else pr_statusCode result),
                          responseBody = (if truthy_string (providerResponseBody result)
                                          then the (providerResponseBody result) else ''OK''),
                          responseHeaders = providerResponseHeaders result\<rparr>,
                    ms',
                    [VerifyWebhook, ParseWebhookEvent] @ map ProcessEvent (events result))))"

section \<open>The call manager, from the specification\<close>

text \<open>
  manager.ts is not among the sources; manager.test.ts is. What follows is the call manager of
  sections 4.1 and 4.2 of the specification.
\<close>

datatype inbound_policy = PolicyOpen | PolicyAllowlist

text \<open>
  Modelled from the spec: the state of \<^verbatim>\<open>CallManager\<close> (manager.ts is missing): the call
  store by internal identifier, the index from provider call identifier to internal
  identifier, the inbound policy of the configuration, and what the manager has done to
  the outside: the hang-up requests to the adapter (their provider call identifiers), the
  records handed to the ended-callback, and the number of errors caught and logged.
\<close>

record call_manager =
  activeCalls :: "string \<rightharpoonup> call_record"
  providerCallIdMap :: "string \<rightharpoonup> string"
  inboundPolicy :: inbound_policy
  allowFrom :: "string list"
  hangupRequests :: "string option list"
  endedCallbacks :: "call_record list"
  loggedErrors :: nat

text \<open>Modelled from the spec: \<^verbatim>\<open>getCall(internalId)\<close> of the missing manager.ts.\<close>

definition cm_getCall :: "call_manager \<Rightarrow> string \<Rightarrow> call_record option" where
  "cm_getCall m callId = activeCalls m callId"

text \<open>Modelled from the spec: \<^verbatim>\<open>getCallByProviderCallId(providerId)\<close> of the missing manager.ts.\<close>

definition cm_getCallByProviderCallId :: "call_manager \<Rightarrow> string \<Rightarrow> call_record option" where
  "cm_getCallByProviderCallId m providerCallId =
     (case providerCallIdMap m providerCallId of
        None \<Rightarrow> None
      | Some callId \<Rightarrow> activeCalls m callId)"

text \<open>
  Modelled from the spec: the lookup of \<^verbatim>\<open>processEvent\<close> in the missing manager.ts, "by
  provider call id, falling back to internal call id".
\<close>

definition cm_findCall :: "call_manager \<Rightarrow> normalized_event \<Rightarrow> call_record option" where
  "cm_findCall m event =
     (case (case ev_providerCallId event of
              None \<Rightarrow> None
            | Some p \<Rightarrow> cm_getCallByProviderCallId m p) of
        Some r \<Rightarrow> Some r
      | None \<Rightarrow> cm_getCall m (ev_callId event))"

text \<open>
  Modelled from the spec: the inbound access policy of section 4.2 (the missing manager.ts
  decides it): under \<^verbatim>\<open>allowlist\<close> the \<^verbatim>\<open>from\<close> number must be present verbatim in
  \<^verbatim>\<open>allowFrom\<close>, and an absent \<^verbatim>\<open>from\<close> is rejected.
\<close>

definition cm_shouldAcceptInbound :: "call_manager \<Rightarrow> string option \<Rightarrow> bool" where
  "cm_shouldAcceptInbound m fromNumber =
     (case inboundPolicy m of
        PolicyOpen \<Rightarrow> True
      | PolicyAllowlist \<Rightarrow>
          (case fromNumber of None \<Rightarrow> False | Some f \<Rightarrow> f \<in> set (allowFrom m)))"

text \<open>
  Modelled from the spec: the terminal states of section 4.1, \<^verbatim>\<open>ended\<close> and
  \<^verbatim>\<open>error-terminal\<close>, and the update of the call store (manager.ts is missing).
\<close>

definition is_terminal :: "call_state \<Rightarrow> bool" where
  "is_terminal st = (st = Ended \<or> st = ErrorTerminal)"

definition store_call :: "call_record \<Rightarrow> call_manager \<Rightarrow> call_manager" where
  "store_call r m = m\<lparr>activeCalls := (activeCalls m)(cr_callId r \<mapsto> r)\<rparr>"

text \<open>
  Modelled from the spec: the ended-callback contract of section 4.1 (the missing manager.ts
  implements it). The record is stored; when its flag is not yet set, the flag is set and
  the callback is invoked with the record; an exception of the callback (\<open>throws\<close> says
  for which records it throws) is caught and logged.
\<close>

definition cm_notifyEnded :: "(call_record \<Rightarrow> bool) \<Rightarrow> call_record \<Rightarrow> call_manager \<Rightarrow> call_manager" where
  "cm_notifyEnded throws r m =
     (if cr_endedCallbackFired r then store_call r m
      else
        let r' = r\<lparr>cr_endedCallbackFired := True\<rparr>;
            m1 = store_call r' m;
            m2 = m1\<lparr>endedCallbacks := endedCallbacks m1 @ [r']\<rparr>
        in if throws r' then m2\<lparr>loggedErrors := Suc (loggedErrors m2)\<rparr> else m2)"

text \<open>
  Modelled from the spec: provider-ID promotion of section 4.1 (missing manager.ts): when
  the event's provider call id differs from the record's, the old index entry is removed,
  the new one inserted and the record updated.
\<close>

definition cm_promote ::
  "normalized_event \<Rightarrow> call_record \<Rightarrow> call_manager \<Rightarrow> call_record \<times> call_manager" where
  "cm_promote event r m =
     (case ev_providerCallId event of
        None \<Rightarrow> (r, m)
      | Some p \<Rightarrow>
          if cr_providerCallId r = Some p then (r, m)
          else
            let idx = (case cr_providerCallId r of
                         None \<Rightarrow> providerCallIdMap m
                       | Some old \<Rightarrow> (providerCallIdMap m)(old := None))
            in (r\<lparr>cr_providerCallId := Some p\<rparr>,
                m\<lparr>providerCallIdMap := idx(p \<mapsto> cr_callId r)\<rparr>))"

text \<open>
  Modelled from the spec: \<^verbatim>\<open>processEvent(event)\<close> of the missing manager.ts, section 4.1.
  \<open>newId\<close> is the internal identifier generated should a record be created. An event for a
  known call whose id was applied before is a no-op; an event after a terminal state is
  recorded only. The hand-off of a staged initial message on \<^verbatim>\<open>call.answered\<close> is left out.
\<close>

definition cm_processEvent ::
  "(call_record \<Rightarrow> bool) \<Rightarrow> string \<Rightarrow> normalized_event \<Rightarrow> call_manager \<Rightarrow> call_manager" where
  "cm_processEvent throws newId event m =
     (case cm_findCall m event of
        None \<Rightarrow>
          if ev_type event = CallInitiated \<and> ev_direction event = Some Inbound then
            if cm_shouldAcceptInbound m (ev_from event) then
              let r = \<lparr>cr_callId = newId, cr_providerCallId = ev_providerCallId event,
                       cr_direction = Inbound, cr_state = Initiated, cr_from = ev_from event,
                       cr_to = ev_to event, cr_startedAt = ev_timestamp event,
                       cr_transcript = [], cr_processedEventIds = [ev_id event],
                       cr_endReason = None, cr_endedCallbackFired = False\<rparr>;
                  m1 = store_call r m
              in (case ev_providerCallId event of
                    None \<Rightarrow> m1
                  | Some p \<Rightarrow> m1\<lparr>providerCallIdMap := (providerCallIdMap m1)(p \<mapsto> newId)\<rparr>)
            else m\<lparr>hangupRequests := hangupRequests m @ [ev_providerCallId event]\<rparr>
          else m
      | Some r \<Rightarrow>
          if ev_id event \<in> set (cr_processedEventIds r) then m
          else
            let r1 = r\<lparr>cr_processedEventIds := cr_processedEventIds r @ [ev_id event]\<rparr> in
            if is_terminal (cr_state r) then store_call r1 m
            else
              let (r2, m1) = cm_promote event r1 m in
              (case ev_type event of
                 CallInitiated \<Rightarrow> store_call r2 m1
               | CallAnswered \<Rightarrow> store_call (r2\<lparr>cr_state := Answered\<rparr>) m1
               | CallSpeech \<Rightarrow>
                   store_call
                     (r2\<lparr>cr_transcript := cr_transcript r2 @
                          [\<lparr>te_timestamp = ev_timestamp event, te_speaker = User,
                            te_text = (case ev_transcript event of Some t \<Rightarrow> t | None \<Rightarrow> []),
                            te_isFinal = truthy_bool (ev_isFinal event)\<rparr>]\<rparr>) m1
               | CallEnded \<Rightarrow>
                   cm_notifyEnded throws
                     (r2\<lparr>cr_state := Ended, cr_endReason := ev_reason event\<rparr>) m1
               | CallError \<Rightarrow>
                   if truthy_bool (ev_retryable event) then store_call r2 m1
                   else
                     cm_notifyEnded throws
                       (r2\<lparr>cr_state := ErrorTerminal, cr_endReason := Some ''error''\<rparr>) m1))"

text \<open>
  Modelled from the spec: \<^verbatim>\<open>endCall(callId)\<close> of the missing manager.ts, section 4.1: only
  valid from \<^verbatim>\<open>answered\<close>/\<^verbatim>\<open>active\<close>; \<open>hangupOk\<close> says whether the adapter's hang-up
  succeeds. The result is the manager afterwards and the \<^verbatim>\<open>success\<close> flag.
\<close>

definition cm_endCall ::
  "(call_record \<Rightarrow> bool) \<Rightarrow> string \<Rightarrow> bool \<Rightarrow> call_manager \<Rightarrow> call_manager \<times> bool" where
  "cm_endCall throws callId hangupOk m =
     (case cm_getCall m callId of
        None \<Rightarrow> (m, False)
      | Some r \<Rightarrow>
          if cr_state r \<noteq> Answered \<and> cr_state r \<noteq> Active then (m, False)
          else
            let m1 = m\<lparr>hangupRequests := hangupRequests m @ [cr_providerCallId r]\<rparr> in
            if \<not> hangupOk then (m1, False)
            else (cm_notifyEnded throws
                    (r\<lparr>cr_state := Ended, cr_endReason := Some ''hangup-bot''\<rparr>) m1, True))"

text \<open>
  What happens to a manager: an event is processed (with the identifier a new record would
  get), or the bot ends a call (with the outcome of the adapter's hang-up).
\<close>

datatype manager_command = Event normalized_event string | EndCallCommand string bool

fun manager_step :: "(call_record \<Rightarrow> bool) \<Rightarrow> manager_command \<Rightarrow> call_manager \<Rightarrow> call_manager" where
  "manager_step throws (Event event newId) m = cm_processEvent throws newId event m"
| "manager_step throws (EndCallCommand callId hangupOk) m = fst (cm_endCall throws callId hangupOk m)"

fun run_manager :: "(call_record \<Rightarrow> bool) \<Rightarrow> manager_command list \<Rightarrow> call_manager \<Rightarrow> call_manager" where
  "run_manager throws [] m = m"
| "run_manager throws (cmd # cmds) m = run_manager throws cmds (manager_step throws cmd m)"

text \<open>The number of times the ended-callback was invoked for a call.\<close>

definition ended_count :: "string \<Rightarrow> call_manager \<Rightarrow> nat" where
  "ended_count callId m = length (filter (\<lambda>r. cr_callId r = callId) (endedCallbacks m))"

text \<open>The identifier a command would give to a new record.\<close>

fun generated_id :: "manager_command \<Rightarrow> string option" where
  "generated_id (Event event newId) = Some newId"
| "generated_id (EndCallCommand callId hangupOk) = None"

text \<open>
  The invariant of the manager with respect to one call: every record is stored under its
  own identifier, and the callback was invoked for the call either never, or once with the
  flag of the stored record set.
\<close>

definition manager_inv :: "string \<Rightarrow> call_manager \<Rightarrow> bool" where
  "manager_inv callId m =
     ((\<forall>k r. activeCalls m k = Some r \<longrightarrow> cr_callId r = k)
      \<and> (ended_count callId m = 0
          \<or> (ended_count callId m = 1
              \<and> (\<exists>r. activeCalls m callId = Some r \<and> cr_endedCallbackFired r))))"

section \<open>Concrete managers, events and requests\<close>

text \<open>A manager with no calls, and the manager of the specification as the endpoint uses it.\<close>

definition new_call_manager :: "inbound_policy \<Rightarrow> string list \<Rightarrow> call_manager" where
  "new_call_manager policy allowed =
     \<lparr>activeCalls = Map.empty, providerCallIdMap = Map.empty, inboundPolicy = policy,
      allowFrom = allowed, hangupRequests = [], endedCallbacks = [], loggedErrors = 0\<rparr>"

definition spec_manager_interface :: "(call_record \<Rightarrow> bool) \<Rightarrow> string \<Rightarrow> call_manager manager_interface" where
  "spec_manager_interface throws newId =
     \<lparr>getCall = cm_getCall, getCallByProviderCallId = cm_getCallByProviderCallId,
      processEvent = (\<lambda>event m. (cm_processEvent throws newId event m, False))\<rparr>"

text \<open>Events, a provider adapter that rejects every webhook, and a request, to run the models on.\<close>

definition blank_event :: normalized_event where
  "blank_event =
     \<lparr>ev_id = [], ev_type = CallInitiated, ev_callId = [], ev_providerCallId = None,
      ev_timestamp = 0, ev_direction = None, ev_from = None, ev_to = None,
      ev_transcript = None, ev_isFinal = None, ev_reason = None, ev_error = None,
      ev_retryable = None\<rparr>"

definition rejecting_provider :: provider_adapter where
  "rejecting_provider =
     \<lparr>verifyWebhook = (\<lambda>ctx. \<lparr>ok = False, reason = Some ''Invalid signature''\<rparr>),
      parseWebhookEvent = (\<lambda>ctx.
        \<lparr>events = [blank_event\<lparr>ev_id := ''evt-1'', ev_type := CallEnded, ev_callId := ''call-1'',
                     ev_providerCallId := Some ''provider-1'', ev_reason := Some ''completed''\<rparr>],
         pr_statusCode = 200, providerResponseBody = None, providerResponseHeaders = []\<rparr>)\<rparr>"

definition demo_request :: http_request where
  "demo_request =
     \<lparr>req_pathname = Some ''/voice/webhook'', req_url = ''http://example.com/voice/webhook'',
      req_method = ''POST'', req_headers = [], req_body = BodyRead ''CallStatus=completed''\<rparr>"

definition inbound_call :: "string \<Rightarrow> string \<Rightarrow> string \<Rightarrow> string option \<Rightarrow> normalized_event" where
  "inbound_call eid callId providerCallId fromNumber =
     blank_event\<lparr>ev_id := eid, ev_type := CallInitiated, ev_callId := callId,
                 ev_providerCallId := Some providerCallId, ev_direction := Some Inbound,
                 ev_from := fromNumber, ev_to := Some ''+15550000000''\<rparr>"

section \<open>Terminal triggers of a call\<close>

text \<open>
  A command that ends call \<open>c\<close>, whose record is \<open>r\<close>, when it is the next one the manager
  handles: the bot's \<^verbatim>\<open>endCall\<close> on an answered or active call with a hang-up the adapter
  accepts, or a \<^verbatim>\<open>call.ended\<close> or non-retryable \<^verbatim>\<open>call.error\<close> event that resolves to
  that record and whose id has not been applied to it.
\<close>

fun terminal_trigger :: "string \<Rightarrow> call_record \<Rightarrow> call_manager \<Rightarrow> manager_command \<Rightarrow> bool" where
  "terminal_trigger c r m (EndCallCommand callId hangupOk) =
     (callId = c \<and> hangupOk \<and> (cr_state r = Answered \<or> cr_state r = Active))"
| "terminal_trigger c r m (Event event newId) =
     (cm_findCall m event = Some r \<and> ev_id event \<notin> set (cr_processedEventIds r)
      \<and> (ev_type event = CallEnded
          \<or> (ev_type event = CallError \<and> \<not> truthy_bool (ev_retryable event))))"

text \<open>The end reason the trigger sets.\<close>

fun trigger_reason :: "manager_command \<Rightarrow> string option" where
  "trigger_reason (EndCallCommand callId hangupOk) = Some ''hangup-bot''"
| "trigger_reason (Event event newId) =
     (if ev_type event = CallEnded then ev_reason event else Some ''error'')"

text \<open>The records the ended-callback was invoked with for a call, in order.\<close>

definition callbacks_for :: "string \<Rightarrow> call_manager \<Rightarrow> call_record list" where
  "callbacks_for c m = filter (\<lambda>r. cr_callId r = c) (endedCallbacks m)"

text \<open>A record without its list of applied event identifiers.\<close>

definition outcome_of :: "call_record \<Rightarrow> call_record" where
  "outcome_of r = r\<lparr>cr_processedEventIds := []\<rparr>"

text \<open>An answered outbound call as in manager.test.ts, and two terminal events for it.\<close>

definition answered_call :: call_record where
  "answered_call =
     \<lparr>cr_callId = ''call-1'', cr_providerCallId = Some ''request-uuid'', cr_direction = Outbound,
      cr_state = Answered, cr_from = Some ''+15550000000'', cr_to = Some ''+15550000001'',
      cr_startedAt = 0, cr_transcript = [], cr_processedEventIds = [''evt-ans-dup''],
      cr_endReason = None, cr_endedCallbackFired = False\<rparr>"

definition answered_manager :: call_manager where
  "answered_manager =
     \<lparr>activeCalls = [''call-1'' \<mapsto> answered_call],
      providerCallIdMap = [''request-uuid'' \<mapsto> ''call-1''],
      inboundPolicy = PolicyOpen, allowFrom = [], hangupRequests = [], endedCallbacks = [],
      loggedErrors = 0\<rparr>"

definition ended_event :: normalized_event where
  "ended_event =
     blank_event\<lparr>ev_id := ''evt-end-dup'', ev_type := CallEnded, ev_callId := ''call-1'',
                 ev_providerCallId := Some ''request-uuid'', ev_reason := Some ''hangup-bot''\<rparr>"

definition error_event :: normalized_event where
  "error_event =
     blank_event\<lparr>ev_id := ''evt-err-1'', ev_type := CallError, ev_callId := ''call-1'',
                 ev_providerCallId := Some ''request-uuid'', ev_error := Some ''network failure'',
                 ev_retryable := Some False\<rparr>"

section \<open>Compaction and tokens\<close>

lemma trimEnd_Nil: "trimEnd [] = []"
  by (simp add: trimEnd_def)

lemma trimEnd_Cons:
  "trimEnd (x # xs) =
     (if isWhiteSpace x \<and> (\<forall>y\<in>set xs. isWhiteSpace y) then [] else x # trimEnd xs)"
  by (auto simp: trimEnd_def dropWhile_append)

lemma space_is_ws: "isWhiteSpace CHR '' ''"
  by (simp add: isWhiteSpace_def)

lemma compact_of_hcomp: "compact_of t = hcomp t"
  by (simp add: compact_of_def trim_def hcomp_def trimEnd_def)

lemma hcomp_Nil: "hcomp [] = []"
  by (simp add: hcomp_def trimEnd_Nil)

lemma kcomp_Nil: "kcomp [] = []"
  by (simp add: kcomp_def trimEnd_Nil)

lemma trimEnd_empty_iff: "trimEnd xs = [] \<longleftrightarrow> (\<forall>y\<in>set xs. isWhiteSpace y)"
  by (induction xs) (auto simp: trimEnd_Nil trimEnd_Cons)

lemma hcomp_ws: "isWhiteSpace x \<Longrightarrow> hcomp (x # xs) = hcomp xs"
  by (auto simp: hcomp_def trimEnd_Cons trimEnd_empty_iff[symmetric])

lemma hcomp_nonws: "\<not> isWhiteSpace x \<Longrightarrow> hcomp (x # xs) = x # kcomp xs"
  by (simp add: hcomp_def kcomp_def trimEnd_Cons)

lemma kcomp_nonws: "\<not> isWhiteSpace x \<Longrightarrow> kcomp (x # xs) = x # kcomp xs"
  by (simp add: kcomp_def trimEnd_Cons)

lemma hcomp_empty_iff: "hcomp xs = [] \<longleftrightarrow> (\<forall>y\<in>set xs. isWhiteSpace y)"
proof (induction xs)
  case Nil
  show ?case by (simp add: hcomp_Nil)
next
  case (Cons x xs)
  then show ?case by (cases "isWhiteSpace x") (simp_all add: hcomp_ws hcomp_nonws)
qed

lemma kcomp_ws:
  "isWhiteSpace x \<Longrightarrow> kcomp (x # xs) = (if hcomp xs = [] then [] else CHR '' '' # hcomp xs)"
  by (auto simp: kcomp_def trimEnd_Cons hcomp_empty_iff) (auto simp: hcomp_def)

text \<open>
  The source's token list, \<^verbatim>\<open>compact.split(" ")\<close>, is the list of white-space separated
  tokens whenever the compacted transcript is not empty.
\<close>

lemma split_on_kcomp_hcomp:
  "split_on CHR '' '' (kcomp t)
     = takeWhile (\<lambda>c. \<not> isWhiteSpace c) t # spec_tokens (dropWhile (\<lambda>c. \<not> isWhiteSpace c) t)
   \<and> (hcomp t = [] \<longrightarrow> spec_tokens t = [])
   \<and> (hcomp t \<noteq> [] \<longrightarrow> split_on CHR '' '' (hcomp t) = spec_tokens t)"
proof (induction t)
  case Nil
  show ?case by (simp add: kcomp_Nil hcomp_Nil)
next
  case (Cons x xs)
  show ?case
  proof (cases "isWhiteSpace x")
    case True
    with Cons show ?thesis
      by (simp add: kcomp_ws hcomp_ws)
  next
    case False
    then have "x \<noteq> CHR '' ''" using space_is_ws by auto
    with False Cons show ?thesis
      by (simp add: kcomp_nonws hcomp_nonws)
  qed
qed

lemma tokens_of_compact:
  "compact_of t \<noteq> [] \<Longrightarrow> split_on CHR '' '' (compact_of t) = spec_tokens t"
  using split_on_kcomp_hcomp[of t] by (simp add: compact_of_hcomp)

lemma compact_empty_iff: "compact_of t = [] \<longleftrightarrow> spec_tokens t = []"
proof
  assume "compact_of t = []"
  then show "spec_tokens t = []"
    using split_on_kcomp_hcomp[of t] by (simp add: compact_of_hcomp)
next
  assume a: "spec_tokens t = []"
  show "compact_of t = []"
  proof (rule ccontr)
    assume "compact_of t \<noteq> []"
    then have "split_on CHR '' '' (compact_of t) = []" using a tokens_of_compact by simp
    then show False by (cases "compact_of t") (auto split: if_splits list.splits)
  qed
qed

lemma spec_tokens_empty_iff: "spec_tokens t = [] \<longleftrightarrow> (\<forall>c\<in>set t. isWhiteSpace c)"
  using compact_empty_iff[of t] hcomp_empty_iff[of t] by (simp add: compact_of_hcomp)

lemma split_on_ne: "split_on c s \<noteq> []"
  by (induction s) (auto split: list.splits)

lemma split_on_single: "split_on c s = [w] \<Longrightarrow> s = w"
proof (induction s arbitrary: w)
  case Nil
  then show ?case by simp
next
  case (Cons x xs)
  then show ?case using split_on_ne[of c xs]
    by (auto split: if_splits list.splits)
qed

lemma compact_single: "spec_tokens t = [w] \<Longrightarrow> compact_of t = w"
proof -
  assume a: "spec_tokens t = [w]"
  then have "compact_of t \<noteq> []" using compact_empty_iff[of t] by simp
  then have "split_on CHR '' '' (compact_of t) = [w]" using a tokens_of_compact by simp
  then show ?thesis by (rule split_on_single)
qed

lemma shouldIgnore_characterisation:
  "shouldIgnoreTranscriptForResponse t =
     (case spec_tokens t of
        [] \<Rightarrow> True
      | [w] \<Rightarrow>
          (let n = normalizeTranscriptWord w in
           (n \<noteq> [] \<and> n \<in> set TRANSCRIPT_FILLER_WORDS)
           \<or> (n \<noteq> [] \<and> length n \<le> 2 \<and> n \<notin> set TRANSCRIPT_SHORT_WORD_ALLOWLIST)
           \<or> (n = [] \<and> length w \<le> 2))
      | _ \<Rightarrow> False)"
proof (cases "spec_tokens t")
  case Nil
  then have "compact_of t = []" using compact_empty_iff by simp
  with Nil show ?thesis by (simp add: shouldIgnoreTranscriptForResponse_def)
next
  case (Cons w ws)
  then have ne: "compact_of t \<noteq> []" using compact_empty_iff[of t] by simp
  then have sp: "split_on CHR '' '' (compact_of t) = w # ws" using Cons tokens_of_compact by simp
  show ?thesis
  proof (cases ws)
    case Nil
    then have "compact_of t = w" using Cons compact_single by simp
    with Nil Cons ne sp show ?thesis
      by (simp add: shouldIgnoreTranscriptForResponse_def Let_def)
  next
    case (Cons v vs)
    with \<open>spec_tokens t = w # ws\<close> ne sp show ?thesis
      by (simp add: shouldIgnoreTranscriptForResponse_def Let_def)
  qed
qed

lemma spec_tokens_append_ws:
  "isWhiteSpace s \<Longrightarrow> spec_tokens (a @ s # b) = spec_tokens a @ spec_tokens b"
proof (induction a rule: spec_tokens.induct)
  case 1
  then show ?case by simp
next
  case (2 x xs)
  show ?case
  proof (cases "isWhiteSpace x")
    case True
    with 2 show ?thesis by simp
  next
    case False
    show ?thesis
    proof (cases "\<forall>c\<in>set xs. \<not> isWhiteSpace c")
      case True
      then have tw: "takeWhile (\<lambda>c. \<not> isWhiteSpace c) xs = xs"
        and dw: "dropWhile (\<lambda>c. \<not> isWhiteSpace c) xs = []" by simp_all
      from True False 2(3) show ?thesis by (simp add: tw dw takeWhile_append dropWhile_append)
    next
      case nall: False
      with False 2 show ?thesis by (auto simp: takeWhile_append dropWhile_append)
    qed
  qed
qed

section \<open>C4: the short-utterance filter\<close>

text \<open>
  C4, as stated, at the single token \<^verbatim>\<open>...\<close>: its normalised form is empty, so of length
  at most 2 and outside the short-acknowledgement allowlist, yet the transcript is not
  filtered. The source tests the raw length of the compacted transcript, here 3, when the
  normalised token is empty.
\<close>
theorem short_filter_counterexample:
  "spec_tokens ''...'' = [''...'']
   \<and> length (normalizeTranscriptWord ''...'') \<le> 2
   \<and> normalizeTranscriptWord ''...'' \<notin> set TRANSCRIPT_SHORT_WORD_ALLOWLIST
   \<and> \<not> shouldIgnoreTranscriptForResponse ''...''"
  by code_simp

text \<open>
  C4, amended: a transcript is filtered when it is empty or white space only, when it is a
  single token whose normalised form is a filler word, when it is a single token whose
  normalised form is non-empty, of length at most 2 and not in the short-acknowledgement
  allowlist, and when it is a single token whose normalised form is empty and whose raw
  length is at most 2. The examples of the claim behave as it says.
\<close>

theorem short_filter_amended:
  "(spec_tokens t = [] \<longrightarrow> shouldIgnoreTranscriptForResponse t)
   \<and> (spec_tokens t = [w] \<and> normalizeTranscriptWord w \<in> set TRANSCRIPT_FILLER_WORDS
        \<longrightarrow> shouldIgnoreTranscriptForResponse t)
   \<and> (spec_tokens t = [w] \<and> normalizeTranscriptWord w \<noteq> []
        \<and> length (normalizeTranscriptWord w) \<le> 2
        \<and> normalizeTranscriptWord w \<notin> set TRANSCRIPT_SHORT_WORD_ALLOWLIST
        \<longrightarrow> shouldIgnoreTranscriptForResponse t)
   \<and> (spec_tokens t = [w] \<and> normalizeTranscriptWord w = [] \<and> length w \<le> 2
        \<longrightarrow> shouldIgnoreTranscriptForResponse t)
   \<and> shouldIgnoreTranscriptForResponse ''''
   \<and> shouldIgnoreTranscriptForResponse ''  ''
   \<and> shouldIgnoreTranscriptForResponse ''um''
   \<and> shouldIgnoreTranscriptForResponse ''Uh''
   \<and> shouldIgnoreTranscriptForResponse ''a''
   \<and> shouldIgnoreTranscriptForResponse ''..''
   \<and> \<not> shouldIgnoreTranscriptForResponse ''ok''
   \<and> \<not> shouldIgnoreTranscriptForResponse ''yes''
   \<and> \<not> shouldIgnoreTranscriptForResponse ''what is kwanzaa''"
proof -
  have filler_ne: "\<And>n. n \<in> set TRANSCRIPT_FILLER_WORDS \<Longrightarrow> n \<noteq> []"
    by (auto simp: TRANSCRIPT_FILLER_WORDS_def)
  have a: "spec_tokens t = [] \<longrightarrow> shouldIgnoreTranscriptForResponse t"
    by (simp add: shouldIgnore_characterisation)
  have b: "spec_tokens t = [w] \<and> normalizeTranscriptWord w \<in> set TRANSCRIPT_FILLER_WORDS
        \<longrightarrow> shouldIgnoreTranscriptForResponse t"
    using filler_ne by (auto simp: shouldIgnore_characterisation Let_def)
  have c: "spec_tokens t = [w] \<and> normalizeTranscriptWord w \<noteq> []
        \<and> length (normalizeTranscriptWord w) \<le> 2
        \<and> normalizeTranscriptWord w \<notin> set TRANSCRIPT_SHORT_WORD_ALLOWLIST
        \<longrightarrow> shouldIgnoreTranscriptForResponse t"
    by (auto simp: shouldIgnore_characterisation Let_def)
  have d: "spec_tokens t = [w] \<and> normalizeTranscriptWord w = [] \<and> length w \<le> 2
        \<longrightarrow> shouldIgnoreTranscriptForResponse t"
    by (auto simp: shouldIgnore_characterisation Let_def)
  have e1: "shouldIgnoreTranscriptForResponse ''''" by code_simp
  have e2: "shouldIgnoreTranscriptForResponse ''  ''" by code_simp
  have e3: "shouldIgnoreTranscriptForResponse ''um''" by code_simp
  have e4: "shouldIgnoreTranscriptForResponse ''Uh''" by code_simp
  have e5: "shouldIgnoreTranscriptForResponse ''a''" by code_simp
  have e6: "shouldIgnoreTranscriptForResponse ''..''" by code_simp
  have e7: "\<not> shouldIgnoreTranscriptForResponse ''ok''" by code_simp
  have e8: "\<not> shouldIgnoreTranscriptForResponse ''yes''" by code_simp
  have e9: "\<not> shouldIgnoreTranscriptForResponse ''what is kwanzaa''" by code_simp
  from a b c d e1 e2 e3 e4 e5 e6 e7 e8 e9 show ?thesis by blast
qed

text \<open>The amended C4 at concrete transcripts, one for each kind of single token.\<close>

theorem short_filter_amended_witness:
  "spec_tokens '' yo '' = [''yo''] \<and> normalizeTranscriptWord ''yo'' \<noteq> []
   \<and> length (normalizeTranscriptWord ''yo'') \<le> 2
   \<and> normalizeTranscriptWord ''yo'' \<notin> set TRANSCRIPT_SHORT_WORD_ALLOWLIST
   \<and> spec_tokens ''Umm...'' = [''Umm...'']
   \<and> normalizeTranscriptWord ''Umm...'' \<in> set TRANSCRIPT_FILLER_WORDS
   \<and> spec_tokens ''?!'' = [''?!''] \<and> normalizeTranscriptWord ''?!'' = []
   \<and> shouldIgnoreTranscriptForResponse '' yo ''
   \<and> shouldIgnoreTranscriptForResponse ''Umm...''
   \<and> shouldIgnoreTranscriptForResponse ''?!''"
proof -
  have h1: "spec_tokens '' yo '' = [''yo''] \<and> normalizeTranscriptWord ''yo'' \<noteq> []
   \<and> length (normalizeTranscriptWord ''yo'') \<le> 2
   \<and> normalizeTranscriptWord ''yo'' \<notin> set TRANSCRIPT_SHORT_WORD_ALLOWLIST" by code_simp
  have h2: "spec_tokens ''Umm...'' = [''Umm...'']
   \<and> normalizeTranscriptWord ''Umm...'' \<in> set TRANSCRIPT_FILLER_WORDS" by code_simp
  have h3: "spec_tokens ''?!'' = [''?!''] \<and> normalizeTranscriptWord ''?!'' = [] \<and> length ''?!'' \<le> 2"
    by code_simp
  from h1 h2 h3 short_filter_amended[of "'' yo ''" "''yo''"]
    short_filter_amended[of "''Umm...''" "''Umm...''"]
    short_filter_amended[of "''?!''" "''?!''"]
  show ?thesis by blast
qed

section \<open>C10: transcripts of several tokens\<close>

text \<open>
  C10: a transcript with two or more white-space separated tokens is never filtered. It is
  stated twice: with the token list, and without it, for any transcript that has a white-space
  character with a character that is not white space on either side. Filler words only,
  as in \<^verbatim>\<open>um uh\<close>, make no difference.
\<close>
theorem multi_token_never_ignored:
  "(2 \<le> length (spec_tokens t) \<longrightarrow> \<not> shouldIgnoreTranscriptForResponse t)
   \<and> ((\<exists>x\<in>set a. \<not> isWhiteSpace x) \<and> isWhiteSpace s \<and> (\<exists>y\<in>set b. \<not> isWhiteSpace y)
        \<longrightarrow> \<not> shouldIgnoreTranscriptForResponse (a @ s # b))
   \<and> \<not> shouldIgnoreTranscriptForResponse ''um uh''
   \<and> \<not> shouldIgnoreTranscriptForResponse ''yes please''"
proof -
  have a: "2 \<le> length (spec_tokens u) \<longrightarrow> \<not> shouldIgnoreTranscriptForResponse u" for u
    by (cases "spec_tokens u" rule: list.exhaust; simp add: shouldIgnore_characterisation split: list.splits)
  have b: "(\<exists>x\<in>set a. \<not> isWhiteSpace x) \<and> isWhiteSpace s \<and> (\<exists>y\<in>set b. \<not> isWhiteSpace y)
        \<longrightarrow> \<not> shouldIgnoreTranscriptForResponse (a @ s # b)"
  proof (intro impI)
    assume h: "(\<exists>x\<in>set a. \<not> isWhiteSpace x) \<and> isWhiteSpace s \<and> (\<exists>y\<in>set b. \<not> isWhiteSpace y)"
    then have "spec_tokens a \<noteq> []" and "spec_tokens b \<noteq> []"
      by (simp_all add: spec_tokens_empty_iff)
    then have "2 \<le> length (spec_tokens a) + length (spec_tokens b)"
      by (cases "spec_tokens a"; cases "spec_tokens b"; simp)
    then have "2 \<le> length (spec_tokens (a @ s # b))"
      using h by (simp add: spec_tokens_append_ws)
    then show "\<not> shouldIgnoreTranscriptForResponse (a @ s # b)" using a by blast
  qed
  have e1: "\<not> shouldIgnoreTranscriptForResponse ''um uh''" by code_simp
  have e2: "\<not> shouldIgnoreTranscriptForResponse ''yes please''" by code_simp
  from a[of t] b e1 e2 show ?thesis by blast
qed

text \<open>C10 at two concrete transcripts, one of them separated by a TAB.\<close>

theorem multi_token_never_ignored_witness:
  "2 \<le> length (spec_tokens ''hm  mm'')
   \<and> (\<exists>x\<in>set ''hm''. \<not> isWhiteSpace x) \<and> isWhiteSpace CHR 0x09 \<and> (\<exists>y\<in>set ''mm''. \<not> isWhiteSpace y)
   \<and> \<not> shouldIgnoreTranscriptForResponse ''hm  mm''
   \<and> \<not> shouldIgnoreTranscriptForResponse (''hm'' @ CHR 0x09 # ''mm'')"
proof -
  have h1: "2 \<le> length (spec_tokens ''hm  mm'')" by code_simp
  have h2: "(\<exists>x\<in>set ''hm''. \<not> isWhiteSpace x) \<and> isWhiteSpace CHR 0x09 \<and> (\<exists>y\<in>set ''mm''. \<not> isWhiteSpace y)"
    by (simp add: isWhiteSpace_def)
  from h1 h2 multi_token_never_ignored[of "''hm  mm''" "''hm''" "CHR 0x09" "''mm''"]
  show ?thesis by blast
qed

section \<open>C7: the topic guard\<close>

text \<open>
  The character classes of the source are those of the specification. There are 256
  characters, and the three comparisons are made at every one of them.
\<close>

lemma all_chars_lower: "list_all (\<lambda>c. toLowerCaseChar c = spec_lower_char c) Enum.enum"
  by code_simp

lemma all_chars_alnum: "list_all (\<lambda>c. isLowerAlnum c = spec_alnum c) Enum.enum"
  by code_simp

lemma all_chars_digit: "list_all (\<lambda>c. isDigit c = spec_digit c) Enum.enum"
  by code_simp

lemma lower_char_eq: "toLowerCaseChar c = spec_lower_char c"
  using all_chars_lower by (simp add: list_all_iff enum_UNIV)

lemma alnum_eq: "isLowerAlnum c = spec_alnum c"
  using all_chars_alnum by (simp add: list_all_iff enum_UNIV)

lemma digit_eq: "isDigit c = spec_digit c"
  using all_chars_digit by (simp add: list_all_iff enum_UNIV)

text \<open>Stripping, normalisation, pure digits and first-seen order agree as well.\<close>

lemma strip_leading_eq: "dropWhile (\<lambda>c. \<not> isLowerAlnum c) s = spec_strip_leading s"
  by (induction s) (simp_all add: alnum_eq)

lemma strip_trailing_eq: "rev (dropWhile (\<lambda>c. \<not> isLowerAlnum c) (rev s)) = spec_strip_trailing s"
proof (induction s)
  case Nil
  show ?case by simp
next
  case (Cons c cs)
  let ?P = "\<lambda>c. \<not> isLowerAlnum c"
  have e: "(\<forall>x\<in>set cs. ?P x) \<longleftrightarrow> spec_strip_trailing cs = []"
    unfolding Cons[symmetric] by simp
  show ?case
  proof (cases "\<forall>x\<in>set cs. ?P x")
    case True
    then have "dropWhile ?P (rev cs @ [c]) = dropWhile ?P [c]"
      by (simp add: dropWhile_append)
    moreover from True e have "spec_strip_trailing cs = []" by simp
    ultimately show ?thesis by (simp add: alnum_eq)
  next
    case False
    then have "dropWhile ?P (rev cs @ [c]) = dropWhile ?P (rev cs) @ [c]"
      by (auto simp: dropWhile_append)
    moreover from False e have "spec_strip_trailing cs \<noteq> []" by simp
    ultimately show ?thesis using Cons by simp
  qed
qed

lemma stripNonAlnum_eq: "stripNonAlnum s = spec_strip_trailing (spec_strip_leading s)"
proof -
  have "stripNonAlnum s = spec_strip_trailing (dropWhile (\<lambda>c. \<not> isLowerAlnum c) s)"
    unfolding stripNonAlnum_def by (rule strip_trailing_eq)
  then show ?thesis by (simp only: strip_leading_eq)
qed

lemma normalize_eq: "normalizeTopicKeyword w = spec_normalize w"
proof -
  have "toLowerCase w = map spec_lower_char w"
    by (simp add: toLowerCase_def lower_char_eq)
  then show ?thesis
    by (simp add: normalizeTopicKeyword_def spec_normalize_def stripNonAlnum_eq)
qed

lemma pure_digits_eq: "isDigitsOnly w = spec_pure_digits w"
  by (simp add: isDigitsOnly_def spec_pure_digits_def list_all_iff digit_eq)

lemma first_seen_fold:
  "fold (\<lambda>x seen. if x \<in> set seen then seen else seen @ [x]) xs acc
     = acc @ dedup_first (filter (\<lambda>x. x \<notin> set acc) xs)"
proof (induction xs arbitrary: acc)
  case Nil
  show ?case by simp
next
  case (Cons x xs)
  show ?case
  proof (cases "x \<in> set acc")
    case True
    with Cons[of acc] show ?thesis by simp
  next
    case False
    have "filter (\<lambda>y. y \<notin> set (acc @ [x])) xs
            = filter (\<lambda>y. y \<noteq> x) (filter (\<lambda>y. y \<notin> set acc) xs)"
      by (simp add: conj_commute)
    with False Cons[of "acc @ [x]"] show ?thesis by simp
  qed
qed

lemma dedup_first_eq: "dedup_first xs = spec_first_seen xs"
  by (simp add: spec_first_seen_def first_seen_fold)

lemma extract_refines_spec: "extractTopicKeywords t = spec_topic_keywords t"
proof -
  have n: "normalizeTopicKeyword = spec_normalize"
    by (rule ext) (rule normalize_eq)
  have d: "isDigitsOnly = spec_pure_digits"
    by (rule ext) (rule pure_digits_eq)
  show ?thesis
  proof (cases "compact_of t = []")
    case True
    then have "spec_tokens t = []" using compact_empty_iff by simp
    with True show ?thesis
      by (simp add: extractTopicKeywords_def spec_topic_keywords_def spec_first_seen_def)
  next
    case False
    then have "split_on CHR '' '' (compact_of t) = spec_tokens t" by (rule tokens_of_compact)
    with False show ?thesis
      by (simp add: extractTopicKeywords_def spec_topic_keywords_def Let_def n d dedup_first_eq
          conj_commute conj_left_commute)
  qed
qed

lemma set_dedup_first: "set (dedup_first xs) = set xs"
  by (induction xs rule: dedup_first.induct) auto

lemma distinct_dedup_first: "distinct (dedup_first xs)"
  by (induction xs rule: dedup_first.induct) (auto simp: set_dedup_first)

lemma min_keywords_floor:
  "max 1 \<lfloor>if m = 0 then 1 else m\<rfloor> = max 1 \<lfloor>m::real\<rfloor>"
  by simp

text \<open>
  C7: the keywords the source extracts are the keywords of the specification: the tokens,
  lower-cased (\<^const>\<open>spec_lower_char\<close>) and stripped of leading and trailing
  non-alphanumerics (\<^const>\<open>spec_strip_leading\<close>, \<^const>\<open>spec_strip_trailing\<close>), of length
  at least 3, not pure digits, not stop words, first occurrences only
  (\<^const>\<open>spec_first_seen\<close>). The example of the claim yields \<^verbatim>\<open>["code","account"]\<close>, and
  the source is evaluated at further utterances: the one of the repository's test, with
  capital letters; ones with capital letters, punctuation at both ends of a token and
  repeated words, where the first occurrence decides the order; one where punctuation inside
  a token stays and a number wrapped in punctuation goes; and one where each of the
  white-space characters separates two tokens. The decision follows the three cases of the
  claim, the threshold being \<open>max 1 \<lfloor>minKeywords\<rfloor>\<close>: below it the utterance is allowed and
  no anchor established; otherwise with an empty anchor it is allowed and the anchor
  established; otherwise it is allowed exactly when keywords and anchor intersect, and the
  overlap is that intersection. The result depends on the three arguments only.
\<close>

theorem topic_guard_evaluation:
  "extractTopicKeywords t = spec_topic_keywords t
   \<and> distinct (extractTopicKeywords t)
   \<and> extractTopicKeywords ''what is the code 483920 for my account'' = [''code'', ''account'']
   \<and> extractTopicKeywords ''Need weather forecast for San Francisco tomorrow''
        = [''need'', ''weather'', ''forecast'', ''san'', ''francisco'', ''tomorrow'']
   \<and> extractTopicKeywords ''Gym gym, GYM! class'' = [''gym'', ''class'']
   \<and> extractTopicKeywords ''Class (Gym) class, GYM!'' = [''class'', ''gym'']
   \<and> extractTopicKeywords ''E-Mail the CO-OP: x-1, --42-- 4x4?'' = [''e-mail'', ''co-op'', ''x-1'', ''4x4'']
   \<and> extractTopicKeywords
        (CHR 0x09 # ''Gym'' @ [CHR 0x0A, CHR 0x20] @ ''CLASS!'' @ [CHR 0xA0] @ ''483920''
           @ [CHR 0x0D] @ ''Yoga'' @ [CHR 0x0B] @ ''mat'' @ [CHR 0x0C])
        = [''gym'', ''class'', ''yoga'', ''mat'']
   \<and> transcriptKeywords (evaluateSingleTopicTranscript t anchor m) = spec_topic_keywords t
   \<and> (int (length (spec_topic_keywords t)) < max 1 \<lfloor>m\<rfloor> \<longrightarrow>
        allow (evaluateSingleTopicTranscript t anchor m)
        \<and> \<not> establishAnchor (evaluateSingleTopicTranscript t anchor m))
   \<and> (\<not> int (length (spec_topic_keywords t)) < max 1 \<lfloor>m\<rfloor> \<and> anchor = [] \<longrightarrow>
        allow (evaluateSingleTopicTranscript t anchor m)
        \<and> establishAnchor (evaluateSingleTopicTranscript t anchor m))
   \<and> (\<not> int (length (spec_topic_keywords t)) < max 1 \<lfloor>m\<rfloor> \<and> anchor \<noteq> [] \<longrightarrow>
        (allow (evaluateSingleTopicTranscript t anchor m)
           \<longleftrightarrow> set (spec_topic_keywords t) \<inter> set anchor \<noteq> {})
        \<and> \<not> establishAnchor (evaluateSingleTopicTranscript t anchor m)
        \<and> overlapKeywords (evaluateSingleTopicTranscript t anchor m)
            = filter (\<lambda>k. k \<in> set anchor) (spec_topic_keywords t)
        \<and> set (overlapKeywords (evaluateSingleTopicTranscript t anchor m))
            = set (spec_topic_keywords t) \<inter> set anchor)"
proof -
  let ?d = "evaluateSingleTopicTranscript t anchor m"
  let ?k = "spec_topic_keywords t"
  have c1: "extractTopicKeywords t = ?k" by (rule extract_refines_spec)
  have c2: "distinct (extractTopicKeywords t)"
    by (simp add: extractTopicKeywords_def Let_def distinct_dedup_first)
  have c3: "extractTopicKeywords ''what is the code 483920 for my account'' = [''code'', ''account'']"
    by code_simp
  have e1: "extractTopicKeywords ''Need weather forecast for San Francisco tomorrow''
        = [''need'', ''weather'', ''forecast'', ''san'', ''francisco'', ''tomorrow'']"
    by code_simp
  have e2: "extractTopicKeywords ''Gym gym, GYM! class'' = [''gym'', ''class'']"
    by code_simp
  have e3: "extractTopicKeywords ''Class (Gym) class, GYM!'' = [''class'', ''gym'']"
    by code_simp
  have e4: "extractTopicKeywords ''E-Mail the CO-OP: x-1, --42-- 4x4?''
        = [''e-mail'', ''co-op'', ''x-1'', ''4x4'']"
    by code_simp
  have e5: "extractTopicKeywords
        (CHR 0x09 # ''Gym'' @ [CHR 0x0A, CHR 0x20] @ ''CLASS!'' @ [CHR 0xA0] @ ''483920''
           @ [CHR 0x0D] @ ''Yoga'' @ [CHR 0x0B] @ ''mat'' @ [CHR 0x0C])
        = [''gym'', ''class'', ''yoga'', ''mat'']"
    by code_simp
  have c4: "transcriptKeywords ?d = ?k"
    by (simp add: evaluateSingleTopicTranscript_def Let_def c1)
  have c5: "int (length ?k) < max 1 \<lfloor>m\<rfloor> \<longrightarrow> allow ?d \<and> \<not> establishAnchor ?d"
    by (simp add: evaluateSingleTopicTranscript_def Let_def c1 min_keywords_floor)
  have c6: "\<not> int (length ?k) < max 1 \<lfloor>m\<rfloor> \<and> anchor = [] \<longrightarrow> allow ?d \<and> establishAnchor ?d"
    by (simp add: evaluateSingleTopicTranscript_def Let_def c1 min_keywords_floor)
  have c7: "\<not> int (length ?k) < max 1 \<lfloor>m\<rfloor> \<and> anchor \<noteq> [] \<longrightarrow>
        (allow ?d \<longleftrightarrow> set ?k \<inter> set anchor \<noteq> {})
        \<and> \<not> establishAnchor ?d
        \<and> overlapKeywords ?d = filter (\<lambda>k. k \<in> set anchor) ?k
        \<and> set (overlapKeywords ?d) = set ?k \<inter> set anchor"
    by (auto simp: evaluateSingleTopicTranscript_def Let_def c1 min_keywords_floor filter_empty_conv)
  from c1 c2 c3 e1 e2 e3 e4 e5 c4 c5 c6 c7 show ?thesis by blast
qed

text \<open>
  C7 at the utterances of the repository's tests, one for each case, and at an utterance with
  capital letters, punctuation and a repeated word.
\<close>

theorem topic_guard_evaluation_witness:
  "int (length (spec_topic_keywords ''yes'')) < max 1 \<lfloor>2::real\<rfloor>
   \<and> allow (evaluateSingleTopicTranscript ''yes'' [''weather'', ''forecast''] 2)
   \<and> \<not> int (length (spec_topic_keywords ''Need help with my gym class schedule'')) < max 1 \<lfloor>2::real\<rfloor>
   \<and> establishAnchor (evaluateSingleTopicTranscript ''Need help with my gym class schedule'' [] 2)
   \<and> \<not> int (length (spec_topic_keywords ''What gym class times are open tonight'')) < max 1 \<lfloor>5/2::real\<rfloor>
   \<and> [''gym'', ''class'', ''schedule''] \<noteq> ([] :: string list)
   \<and> overlapKeywords (evaluateSingleTopicTranscript ''What gym class times are open tonight''
        [''gym'', ''class'', ''schedule''] (5/2)) = [''gym'', ''class'']
   \<and> allow (evaluateSingleTopicTranscript ''What gym class times are open tonight''
        [''gym'', ''class'', ''schedule''] (5/2))
   \<and> \<not> allow (evaluateSingleTopicTranscript ''Book me a dentist appointment tomorrow''
        [''gym'', ''class'', ''schedule''] 2)
   \<and> extractTopicKeywords ''Is the CLASS (Gym class) open, TONIGHT?''
        = [''class'', ''gym'', ''open'', ''tonight'']
   \<and> transcriptKeywords (evaluateSingleTopicTranscript ''Is the CLASS (Gym class) open, TONIGHT?''
        [''gym'', ''class'', ''schedule''] 2) = [''class'', ''gym'', ''open'', ''tonight'']
   \<and> overlapKeywords (evaluateSingleTopicTranscript ''Is the CLASS (Gym class) open, TONIGHT?''
        [''gym'', ''class'', ''schedule''] 2) = [''class'', ''gym'']
   \<and> allow (evaluateSingleTopicTranscript ''Is the CLASS (Gym class) open, TONIGHT?''
        [''gym'', ''class'', ''schedule''] 2)"
proof -
  have k1: "spec_topic_keywords ''yes'' = [''yes'']" by code_simp
  have k2: "spec_topic_keywords ''Need help with my gym class schedule''
              = [''need'', ''help'', ''gym'', ''class'', ''schedule'']" by code_simp
  have k3: "spec_topic_keywords ''What gym class times are open tonight''
              = [''gym'', ''class'', ''times'', ''open'', ''tonight'']" by code_simp
  have k4: "spec_topic_keywords ''Book me a dentist appointment tomorrow''
              = [''book'', ''dentist'', ''appointment'', ''tomorrow'']" by code_simp
  have k5: "spec_topic_keywords ''Is the CLASS (Gym class) open, TONIGHT?''
              = [''class'', ''gym'', ''open'', ''tonight'']" by code_simp
  have f: "\<lfloor>5/2::real\<rfloor> = 2" by linarith
  show ?thesis
    using topic_guard_evaluation[of "''yes''" "[''weather'', ''forecast'']" 2]
      topic_guard_evaluation[of "''Need help with my gym class schedule''" "[]" 2]
      topic_guard_evaluation[of "''What gym class times are open tonight''"
         "[''gym'', ''class'', ''schedule'']" "5/2"]
      topic_guard_evaluation[of "''Book me a dentist appointment tomorrow''"
         "[''gym'', ''class'', ''schedule'']" 2]
      topic_guard_evaluation[of "''Is the CLASS (Gym class) open, TONIGHT?''"
         "[''gym'', ''class'', ''schedule'']" 2]
    by (simp add: k1 k2 k3 k4 k5 f)
qed

section \<open>The response cue controller\<close>

lemma settled_settle: "settled (settle c)"
  by (simp add: settle_def Let_def split: option.splits)




lemma run_cues_Cons:
  "run_cues plan (op # ops) (c, sp)
     = run_cues plan ops (fst (cue_step plan op c), sp @ snd (cue_step plan op c))"
  by (simp split: prod.splits)





lemma elapsed_ms_append: "elapsed_ms (xs @ ys) = elapsed_ms xs + elapsed_ms ys"
  by (induction xs rule: elapsed_ms.induct) simp_all







lemma ack_count_step:
  "length (filter (\<lambda>x. fst x = Acknowledgement) (snd (cue_step plan op c)))
     \<le> count_list [op] MaybeSpeakAcknowledgement"
  by (cases op)
     (auto simp: maybeSpeakAcknowledgement_def scheduleProgressCue_def elapse_def
        progress_callback_def filter_concat)

lemma ack_count_run:
  "length (filter (\<lambda>x. fst x = Acknowledgement) (snd (run_cues plan ops (c, sp))))
     \<le> length (filter (\<lambda>x. fst x = Acknowledgement) sp) + count_list ops MaybeSpeakAcknowledgement"
proof (induction ops arbitrary: c sp)
  case Nil
  show ?case by simp
next
  case (Cons op ops)
  have "length (filter (\<lambda>x. fst x = Acknowledgement) (snd (run_cues plan (op # ops) (c, sp))))
      \<le> length (filter (\<lambda>x. fst x = Acknowledgement) (sp @ snd (cue_step plan op c)))
          + count_list ops MaybeSpeakAcknowledgement"
    using Cons.IH[of "fst (cue_step plan op c)" "sp @ snd (cue_step plan op c)"]
    by (simp only: run_cues_Cons)
  also have "\<dots> \<le> length (filter (\<lambda>x. fst x = Acknowledgement) sp)
          + count_list [op] MaybeSpeakAcknowledgement + count_list ops MaybeSpeakAcknowledgement"
    using ack_count_step[of plan op c] by simp
  also have "\<dots> = length (filter (\<lambda>x. fst x = Acknowledgement) sp)
          + count_list (op # ops) MaybeSpeakAcknowledgement"
    by simp
  finally show ?case .
qed

section \<open>C5: the acknowledgement cue\<close>

text \<open>
  C5, as stated, on a controller with an enabled plan that is never settled: two calls of
  \<^verbatim>\<open>maybeSpeakAcknowledgement\<close> speak the acknowledgement twice. The controller does
  not remember having spoken it.
\<close>

theorem acknowledgement_twice_counterexample:
  "snd (run_cues
      \<lparr>enabled = True, acknowledgement = Some ''Got it, checking now.'',
       progress = Some ''Still working on that.'', progressDelayMs = 1500\<rparr>
      [MaybeSpeakAcknowledgement, MaybeSpeakAcknowledgement] (new_cue_ctl, []))
   = [(Acknowledgement, ''Got it, checking now.''), (Acknowledgement, ''Got it, checking now.'')]"
  by (simp add: new_cue_ctl_def maybeSpeakAcknowledgement_def falsy_text_def)

text \<open>
  C5, amended: every call of \<^verbatim>\<open>maybeSpeakAcknowledgement\<close> speaks the acknowledgement text
  once, within the call, when the plan is enabled, the text is neither null nor empty and
  \<^verbatim>\<open>settle\<close> has not been called, and is a no-op otherwise; it never changes the controller.
  Over the lifetime of a controller there are at most as many acknowledgement cues as calls.
\<close>

theorem acknowledgement_per_call:
  "maybeSpeakAcknowledgement plan c =
     (c, if enabled plan \<and> acknowledgement plan \<noteq> None \<and> acknowledgement plan \<noteq> Some []
            \<and> \<not> settled c
         then [(Acknowledgement, the (acknowledgement plan))] else [])
   \<and> length (filter (\<lambda>x. fst x = Acknowledgement) (snd (run_cues plan ops (c, []))))
       \<le> count_list ops MaybeSpeakAcknowledgement"
proof -
  have a: "maybeSpeakAcknowledgement plan c =
     (c, if enabled plan \<and> acknowledgement plan \<noteq> None \<and> acknowledgement plan \<noteq> Some []
            \<and> \<not> settled c
         then [(Acknowledgement, the (acknowledgement plan))] else [])"
    by (auto simp: maybeSpeakAcknowledgement_def falsy_text_def split: option.splits)
  have b: "length (filter (\<lambda>x. fst x = Acknowledgement) (snd (run_cues plan ops (c, []))))
       \<le> count_list ops MaybeSpeakAcknowledgement"
    using ack_count_run[of plan ops c "[]"] by simp
  from a b show ?thesis by (rule conjI)
qed

text \<open>The amended C5 on a fresh controller, on a settled one and with a disabled plan.\<close>

theorem acknowledgement_per_call_witness:
  "maybeSpeakAcknowledgement
      \<lparr>enabled = True, acknowledgement = Some ''Got it, checking now.'',
       progress = None, progressDelayMs = 6000\<rparr> new_cue_ctl
     = (new_cue_ctl, [(Acknowledgement, ''Got it, checking now.'')])
   \<and> maybeSpeakAcknowledgement
      \<lparr>enabled = True, acknowledgement = Some ''Got it, checking now.'',
       progress = None, progressDelayMs = 6000\<rparr> (settle new_cue_ctl)
     = (settle new_cue_ctl, [])
   \<and> maybeSpeakAcknowledgement
      \<lparr>enabled = False, acknowledgement = None, progress = None, progressDelayMs = 6000\<rparr>
      new_cue_ctl
     = (new_cue_ctl, [])"
  using acknowledgement_per_call[of
      "\<lparr>enabled = True, acknowledgement = Some ''Got it, checking now.'',
        progress = None, progressDelayMs = 6000\<rparr>" new_cue_ctl "[]"]
    acknowledgement_per_call[of
      "\<lparr>enabled = True, acknowledgement = Some ''Got it, checking now.'',
        progress = None, progressDelayMs = 6000\<rparr>" "settle new_cue_ctl" "[]"]
    acknowledgement_per_call[of
      "\<lparr>enabled = False, acknowledgement = None, progress = None, progressDelayMs = 6000\<rparr>"
      new_cue_ctl "[]"]
  by (simp add: new_cue_ctl_def settle_def)

section \<open>C8: settling a controller\<close>



section \<open>Response generations: the invariant holds in every reachable state\<close>

lemma inv_init: "response_inv new_webhook_server"
  by (simp add: response_inv_def distinct_generations_def new_webhook_server_def)

lemma inv_goodD: "response_inv s \<Longrightarrow> responses s i = Some r \<Longrightarrow> good_response s i r"
  by (simp add: response_inv_def)

lemma inv_distinctD:
  "response_inv s \<Longrightarrow> responses s i = Some ri \<Longrightarrow> responses s j = Some rj \<Longrightarrow> i \<noteq> j
    \<Longrightarrow> r_callId ri = r_callId rj \<Longrightarrow> r_generation ri \<noteq> r_generation rj"
  unfolding response_inv_def distinct_generations_def by blast

lemma good_responseI:
  assumes "i < responseCount s" and "pendingResponses s (r_callId r) = Some st"
    and "r_generation r \<le> generation st"
    and "disconnected st \<Longrightarrow> r_generation r < generation st"
    and "\<not> settled (r_cues r) \<Longrightarrow> r_generation r = generation st \<and> settleCues st = Some i"
  shows "good_response s i r"
  unfolding good_response_def using assms by blast

lemma good_responseE:
  assumes "good_response s i r"
  obtains st where "i < responseCount s" and "pendingResponses s (r_callId r) = Some st"
    and "r_generation r \<le> generation st"
    and "disconnected st \<longrightarrow> r_generation r < generation st"
    and "\<not> settled (r_cues r) \<longrightarrow> r_generation r = generation st \<and> settleCues st = Some i"
  using assms unfolding good_response_def by blast

lemma distinct_transfer:
  assumes inv: "response_inv s"
    and R: "\<And>i r'. responses s' i = Some r' \<Longrightarrow> \<exists>r. responses s i = Some r \<and> same_response r r'"
  shows "distinct_generations s'"
  unfolding distinct_generations_def
proof (intro allI impI)
  fix i j ri rj
  assume a: "responses s' i = Some ri \<and> responses s' j = Some rj \<and> i \<noteq> j
     \<and> r_callId ri = r_callId rj"
  from a R[of i ri] obtain ri0 where i0: "responses s i = Some ri0" "same_response ri0 ri" by blast
  from a R[of j rj] obtain rj0 where j0: "responses s j = Some rj0" "same_response rj0 rj" by blast
  from a i0 j0 have "r_callId ri0 = r_callId rj0" by (simp add: same_response_def)
  with inv i0 j0 a have "r_generation ri0 \<noteq> r_generation rj0" using inv_distinctD by blast
  with i0 j0 show "r_generation ri \<noteq> r_generation rj" by (simp add: same_response_def)
qed

lemma inv_transfer:
  assumes inv: "response_inv s"
    and R: "\<And>i r'. responses s' i = Some r' \<Longrightarrow> \<exists>r. responses s i = Some r \<and> same_response r r'"
    and P: "pendingResponses s' = pendingResponses s"
    and N: "responseCount s \<le> responseCount s'"
  shows "response_inv s'"
  unfolding response_inv_def
proof (intro conjI allI impI)
  fix i r' assume a: "responses s' i = Some r'"
  from R[OF a] obtain r where r: "responses s i = Some r" "same_response r r'" by blast
  from inv r have "good_response s i r" by (simp add: inv_goodD)
  with r N show "good_response s' i r'"
    unfolding good_response_def same_response_def P by auto
next
  show "distinct_generations s'" using inv R by (rule distinct_transfer)
qed

lemma pending_settle_response: "pendingResponses (settle_response j s) = pendingResponses s"
  by (simp add: settle_response_def split: option.splits)

lemma count_settle_response: "responseCount (settle_response j s) = responseCount s"
  by (simp add: settle_response_def split: option.splits)

lemma responses_settle_response:
  "responses (settle_response j s) i =
     (if i = j then map_option (\<lambda>r. r\<lparr>r_cues := settle (r_cues r)\<rparr>) (responses s j)
      else responses s i)"
  by (simp add: settle_response_def split: option.splits)

lemma same_response_refl: "same_response r r"
  by (simp add: same_response_def)

lemma same_after_settle:
  "responses (settle_response j s) i = Some r' \<Longrightarrow> \<exists>r. responses s i = Some r \<and> same_response r r'"
  by (auto simp: responses_settle_response same_response_def settled_settle split: if_splits)

lemma pending_run_settleCues: "pendingResponses (run_settleCues sc s) = pendingResponses s"
  by (cases sc) (simp_all add: run_settleCues_def pending_settle_response)

lemma count_run_settleCues: "responseCount (run_settleCues sc s) = responseCount s"
  by (cases sc) (simp_all add: run_settleCues_def count_settle_response)

lemma same_after_run_settleCues:
  "responses (run_settleCues sc s) i = Some r' \<Longrightarrow> \<exists>r. responses s i = Some r \<and> same_response r r'"
  by (cases sc) (auto simp: run_settleCues_def same_response_refl dest: same_after_settle)

lemma settled_after_run_settleCues:
  "responses (run_settleCues (Some i) s) i = Some r' \<Longrightarrow> settled (r_cues r')"
  by (auto simp: run_settleCues_def responses_settle_response settled_settle)

lemma inv_markResponseDisconnected:
  assumes inv: "response_inv s"
  shows "response_inv (markResponseDisconnected c s)"
proof (cases "pendingResponses s c")
  case None
  with inv show ?thesis by (simp add: markResponseDisconnected_def)
next
  case (Some st)
  let ?s' = "markResponseDisconnected c s"
  have p: "pendingResponses ?s' = (pendingResponses s)
            (c \<mapsto> \<lparr>generation = generation st + 1, disconnected = True, settleCues = None\<rparr>)"
    using Some by (simp add: markResponseDisconnected_def Let_def pending_run_settleCues)
  have r: "responses ?s' = responses (run_settleCues (settleCues st) s)"
    using Some by (simp add: markResponseDisconnected_def Let_def)
  have n: "responseCount ?s' = responseCount s"
    using Some by (simp add: markResponseDisconnected_def Let_def count_run_settleCues)
  have R: "\<exists>r. responses s i = Some r \<and> same_response r r'" if "responses ?s' i = Some r'" for i r'
    using that unfolding r by (rule same_after_run_settleCues)
  show ?thesis
    unfolding response_inv_def
  proof (intro conjI allI impI)
    fix i r' assume a: "responses ?s' i = Some r'"
    from R[OF a] obtain r0 where r0: "responses s i = Some r0" "same_response r0 r'" by blast
    from inv r0 have g: "good_response s i r0" by (simp add: inv_goodD)
    show "good_response ?s' i r'"
    proof (cases "r_callId r' = c")
      case False
      with g r0 show ?thesis
        unfolding good_response_def same_response_def p n by auto
    next
      case True
      have "settled (r_cues r')"
      proof (rule ccontr)
        assume ns: "\<not> settled (r_cues r')"
        with r0 have "\<not> settled (r_cues r0)" by (auto simp: same_response_def)
        with g True r0 Some have "settleCues st = Some i"
          by (auto simp: good_response_def same_response_def)
        with a have "settled (r_cues r')"
          unfolding r by (auto dest: settled_after_run_settleCues)
        with ns show False by simp
      qed
      with g r0 True Some show ?thesis
        unfolding good_response_def same_response_def p n by auto
    qed
  next
    show "distinct_generations ?s'" using inv R by (rule distinct_transfer)
  qed
qed

lemma pending_clearCueController:
  "pendingResponses (clearCueController c g s) c' =
     (case pendingResponses s c' of
        None \<Rightarrow> None
      | Some st \<Rightarrow> if c' = c \<and> generation st = g then Some (st\<lparr>settleCues := None\<rparr>) else Some st)"
  by (auto simp: clearCueController_def split: option.splits)

lemma responses_clearCueController: "responses (clearCueController c g s) = responses s"
  by (simp add: clearCueController_def split: option.splits)

lemma count_clearCueController: "responseCount (clearCueController c g s) = responseCount s"
  by (simp add: clearCueController_def split: option.splits)

lemma pending_clear_props:
  assumes "pendingResponses s c' = Some st"
  shows "\<exists>st'. pendingResponses (clearCueController c g s) c' = Some st'
          \<and> generation st' = generation st \<and> disconnected st' = disconnected st
          \<and> (settleCues st' = settleCues st \<or> (c' = c \<and> generation st = g))"
  using assms by (simp add: pending_clearCueController)

lemma inv_clear_settle:
  assumes inv: "response_inv s" and ri: "responses s i = Some r"
  shows "response_inv (settle_response i (clearCueController (r_callId r) (r_generation r) s))"
    (is "response_inv ?s'")
proof -
  let ?c = "r_callId r" and ?g = "r_generation r"
  have R: "\<exists>r0. responses s k = Some r0 \<and> same_response r0 r'" if "responses ?s' k = Some r'" for k r'
    using same_after_settle[OF that] by (simp add: responses_clearCueController)
  have n: "responseCount ?s' = responseCount s"
    by (simp add: count_settle_response count_clearCueController)
  show ?thesis
    unfolding response_inv_def
  proof (intro conjI allI impI)
    fix k r' assume a: "responses ?s' k = Some r'"
    from R[OF a] obtain r0 where r0: "responses s k = Some r0" "same_response r0 r'" by blast
    from r0 have ids: "r_callId r' = r_callId r0" "r_generation r' = r_generation r0"
      by (simp_all add: same_response_def)
    from inv r0 have "good_response s k r0" by (simp add: inv_goodD)
    then obtain st where st: "k < responseCount s" "pendingResponses s (r_callId r0) = Some st"
      "r_generation r0 \<le> generation st" "disconnected st \<longrightarrow> r_generation r0 < generation st"
      "\<not> settled (r_cues r0) \<longrightarrow> r_generation r0 = generation st \<and> settleCues st = Some k"
      by (rule good_responseE)
    from pending_clear_props[OF st(2), of ?c ?g]
    obtain st' where st': "pendingResponses ?s' (r_callId r0) = Some st'"
      "generation st' = generation st" "disconnected st' = disconnected st"
      "settleCues st' = settleCues st \<or> (r_callId r0 = ?c \<and> generation st = ?g)"
      by (auto simp: pending_settle_response)
    have u: "r_generation r' = generation st' \<and> settleCues st' = Some k" if ns: "\<not> settled (r_cues r')"
    proof -
      from ns a have ki: "k \<noteq> i" by (auto simp: responses_settle_response settled_settle)
      from ns r0 have ns0: "\<not> settled (r_cues r0)" by (auto simp: same_response_def)
      with st have e: "r_generation r0 = generation st" "settleCues st = Some k" by simp_all
      have "\<not> (r_callId r0 = ?c \<and> generation st = ?g)"
        using inv_distinctD[OF inv r0(1) ri ki] e by auto
      with st' e ids show ?thesis by simp
    qed
    show "good_response ?s' k r'"
      using st st' u by (intro good_responseI[where st = st']) (simp_all add: n ids)
  next
    show "distinct_generations ?s'" using inv R by (rule distinct_transfer)
  qed
qed

lemma inv_update_response:
  assumes inv: "response_inv s" and ri: "responses s i = Some r" and same: "same_response r r'"
  shows "response_inv (update_response i r' s)"
proof (rule inv_transfer[OF inv])
  fix k r'' assume "responses (update_response i r' s) k = Some r''"
  with ri same show "\<exists>r0. responses s k = Some r0 \<and> same_response r0 r''"
    by (cases "k = i") (auto simp: update_response_def same_response_refl)
qed (simp_all add: update_response_def)

lemma inv_finish_response: "response_inv s \<Longrightarrow> response_inv (finish_response i s)"
proof (cases "responses s i")
  case None
  assume "response_inv s"
  with None show ?thesis by (simp add: finish_response_def)
next
  case (Some r)
  assume inv: "response_inv s"
  let ?s1 = "settle_response i (clearCueController (r_callId r) (r_generation r) s)"
  have i1: "response_inv ?s1" using inv Some by (rule inv_clear_settle)
  show ?thesis
  proof (cases "responses ?s1 i")
    case None
    with Some i1 show ?thesis by (simp add: finish_response_def Let_def)
  next
    case (Some r1)
    have "response_inv (update_response i (r1\<lparr>r_pc := Finished\<rparr>) ?s1)"
      using i1 Some by (rule inv_update_response) (simp add: same_response_def)
    with Some \<open>responses s i = Some r\<close> show ?thesis
      by (simp add: finish_response_def Let_def update_response_def)
  qed
qed

lemma start_response_effect:
  assumes "hasCoreConfig cfg"
  shows "fst (start_response cfg c True s) =
     (begun c s)\<lparr>pendingResponses := (pendingResponses s)
          (c \<mapsto> \<lparr>generation = next_generation c s, disconnected = False,
                  settleCues = Some (responseCount s)\<rparr>),
        responses := (responses (begun c s))
          (responseCount s \<mapsto> \<lparr>r_callId = c, r_generation = next_generation c s,
              r_cues = new_cue_ctl, r_pc = AwaitImport\<rparr>),
        responseCount := Suc (responseCount s)\<rparr>"
  using assms
  by (cases "pendingResponses s c")
     (simp_all add: start_response_def beginVoiceResponseGeneration_def Let_def
        registerCueController_def begun_def next_generation_def pending_run_settleCues
        count_run_settleCues)

lemma same_after_begun:
  "responses (begun c s) i = Some r' \<Longrightarrow> \<exists>r. responses s i = Some r \<and> same_response r r'"
  by (cases "pendingResponses s c")
     (auto simp: begun_def same_response_refl dest: same_after_run_settleCues)

lemma settled_after_begun:
  "pendingResponses s c = Some st \<Longrightarrow> settleCues st = Some i \<Longrightarrow> responses (begun c s) i = Some r'
    \<Longrightarrow> settled (r_cues r')"
  by (auto simp: begun_def dest: settled_after_run_settleCues)

lemma inv_start_response:
  assumes inv: "response_inv s"
  shows "response_inv (fst (start_response cfg c found s))"
proof (cases "found \<and> hasCoreConfig cfg")
  case False
  with inv show ?thesis by (auto simp: start_response_def)
next
  case True
  let ?i = "responseCount s" and ?g = "next_generation c s"
  let ?new = "\<lparr>r_callId = c, r_generation = ?g, r_cues = new_cue_ctl, r_pc = AwaitImport\<rparr>"
  let ?st' = "\<lparr>generation = ?g, disconnected = False, settleCues = Some ?i\<rparr>"
  let ?s' = "fst (start_response cfg c found s)"
  from True have eff: "?s' = (begun c s)\<lparr>pendingResponses := (pendingResponses s)(c \<mapsto> ?st'),
        responses := (responses (begun c s))(?i \<mapsto> ?new),
        responseCount := Suc ?i\<rparr>"
    using start_response_effect[of cfg c s] by simp
  have p: "pendingResponses ?s' = (pendingResponses s)(c \<mapsto> ?st')" by (simp add: eff)
  have r: "responses ?s' = (responses (begun c s))(?i \<mapsto> ?new)" by (simp add: eff)
  have n: "responseCount ?s' = Suc ?i" by (simp add: eff)
  have old: "\<exists>r0. responses s k = Some r0 \<and> same_response r0 r' \<and> k < ?i
         \<and> (r_callId r0 = c \<longrightarrow> r_generation r0 < ?g \<and> settled (r_cues r'))"
    if a: "responses ?s' k = Some r'" and ki: "k \<noteq> ?i" for k r'
  proof -
    from a ki have b: "responses (begun c s) k = Some r'" by (simp add: r)
    from same_after_begun[OF b] obtain r0 where r0: "responses s k = Some r0" "same_response r0 r'"
      by blast
    from inv r0 have "good_response s k r0" by (simp add: inv_goodD)
    then obtain st where st: "k < responseCount s" "pendingResponses s (r_callId r0) = Some st"
      "r_generation r0 \<le> generation st"
      "\<not> settled (r_cues r0) \<longrightarrow> r_generation r0 = generation st \<and> settleCues st = Some k"
      by (rule good_responseE)
    have "r_generation r0 < ?g \<and> settled (r_cues r')" if c: "r_callId r0 = c"
    proof
      from st c show "r_generation r0 < ?g" by (simp add: next_generation_def)
      show "settled (r_cues r')"
      proof (cases "settled (r_cues r0)")
        case True
        with r0 show ?thesis by (simp add: same_response_def)
      next
        case False
        with st c have "pendingResponses s c = Some st" "settleCues st = Some k" by simp_all
        then show ?thesis using b by (rule settled_after_begun)
      qed
    qed
    with r0 st show ?thesis by blast
  qed
  show ?thesis
    unfolding response_inv_def
  proof (intro conjI allI impI)
    fix k r' assume a: "responses ?s' k = Some r'"
    show "good_response ?s' k r'"
    proof (cases "k = ?i")
      case True
      with a have "r' = ?new" by (simp add: r)
      with True show ?thesis
        by (intro good_responseI[where st = ?st']) (simp_all add: p n)
    next
      case False
      from old[OF a False] obtain r0 where r0: "responses s k = Some r0" "same_response r0 r'"
        "k < ?i" "r_callId r0 = c \<longrightarrow> r_generation r0 < ?g \<and> settled (r_cues r')" by blast
      from r0 have ids: "r_callId r' = r_callId r0" "r_generation r' = r_generation r0"
        by (simp_all add: same_response_def)
      show ?thesis
      proof (cases "r_callId r0 = c")
        case True
        with r0 ids show ?thesis
          by (intro good_responseI[where st = ?st']) (simp_all add: p n)
      next
        case nc: False
        from inv r0 have "good_response s k r0" by (simp add: inv_goodD)
        then obtain st where st: "pendingResponses s (r_callId r0) = Some st"
          "r_generation r0 \<le> generation st" "disconnected st \<longrightarrow> r_generation r0 < generation st"
          "\<not> settled (r_cues r0) \<longrightarrow> r_generation r0 = generation st \<and> settleCues st = Some k"
          by (rule good_responseE)
        from r0 have "\<not> settled (r_cues r') \<Longrightarrow> \<not> settled (r_cues r0)"
          by (auto simp: same_response_def)
        with st nc r0 ids show ?thesis
          by (intro good_responseI[where st = st]) (simp_all add: p n)
      qed
    qed
  next
    show "distinct_generations ?s'"
      unfolding distinct_generations_def
    proof (intro allI impI)
      fix k j rk rj
      assume a: "responses ?s' k = Some rk \<and> responses ?s' j = Some rj \<and> k \<noteq> j
         \<and> r_callId rk = r_callId rj"
      consider (new_k) "k = ?i" "j \<noteq> ?i" | (new_j) "j = ?i" "k \<noteq> ?i"
        | (both_old) "k \<noteq> ?i" "j \<noteq> ?i"
        using a by blast
      then show "r_generation rk \<noteq> r_generation rj"
      proof cases
        case new_k
        with a have e: "rk = ?new" by (simp add: r)
        from a new_k have "responses ?s' j = Some rj" "j \<noteq> ?i" by simp_all
        from old[OF this] obtain r0 where "same_response r0 rj"
          "r_callId r0 = c \<longrightarrow> r_generation r0 < ?g" by blast
        with a e show ?thesis by (auto simp: same_response_def)
      next
        case new_j
        with a have e: "rj = ?new" by (simp add: r)
        from a new_j have "responses ?s' k = Some rk" "k \<noteq> ?i" by simp_all
        from old[OF this] obtain r0 where "same_response r0 rk"
          "r_callId r0 = c \<longrightarrow> r_generation r0 < ?g" by blast
        with a e show ?thesis by (auto simp: same_response_def)
      next
        case both_old
        from a both_old have "responses ?s' k = Some rk" "k \<noteq> ?i" by simp_all
        from old[OF this] obtain rk0 where k0: "responses s k = Some rk0" "same_response rk0 rk"
          by blast
        from a both_old have "responses ?s' j = Some rj" "j \<noteq> ?i" by simp_all
        from old[OF this] obtain rj0 where j0: "responses s j = Some rj0" "same_response rj0 rj"
          by blast
        from a k0 j0 have "r_callId rk0 = r_callId rj0" by (simp add: same_response_def)
        with inv k0 j0 a have "r_generation rk0 \<noteq> r_generation rj0" using inv_distinctD by blast
        with k0 j0 show ?thesis by (simp add: same_response_def)
      qed
    qed
  qed
qed

lemma inv_topics_update:
  "response_inv (s\<lparr>singleTopicStates := x\<rparr>) = response_inv s"
  by (simp add: response_inv_def good_response_def distinct_generations_def)

lemma inv_clearSingleTopicState: "response_inv (clearSingleTopicState c s) = response_inv s"
  by (simp add: clearSingleTopicState_def inv_topics_update)

lemma inv_shouldAutoRespond:
  "response_inv s \<Longrightarrow> response_inv (fst (snd (shouldAutoRespondToTranscript cfg c t s)))"
  by (auto simp: shouldAutoRespondToTranscript_def Let_def inv_topics_update
      inv_clearSingleTopicState inv_markResponseDisconnected split: option.splits)

lemma ack_keeps_ctl: "fst (maybeSpeakAcknowledgement plan c) = c"
  by (simp add: maybeSpeakAcknowledgement_def)

lemma schedule_keeps_settled: "settled (fst (scheduleProgressCue plan c)) = settled c"
  by (simp add: scheduleProgressCue_def)

lemma elapse_keeps_settled: "settled (fst (elapse d plan c)) = settled c"
  by (simp add: elapse_def)

lemma inv_resume_response:
  assumes inv: "response_inv s"
  shows "response_inv (fst (resume_response cfg i out s))"
proof (cases "responses s i")
  case None
  with inv show ?thesis by (simp add: resume_response_def)
next
  case (Some r)
  have fin: "response_inv (finish_response i s)" using inv by (rule inv_finish_response)
  have upd: "response_inv (update_response i r' s)" if "same_response r r'" for r'
    using inv Some that by (rule inv_update_response)
  have u1: "response_inv (update_response i
      (r\<lparr>r_cues := fst (maybeSpeakAcknowledgement (cuePlan cfg) (r_cues r)), r_pc := pc\<rparr>) s)" for pc
    by (rule upd) (simp add: same_response_def ack_keeps_ctl)
  have u2: "response_inv (update_response i
      (r\<lparr>r_cues := fst (scheduleProgressCue (cuePlan cfg) (r_cues r)), r_pc := pc\<rparr>) s)" for pc
    by (rule upd) (simp add: same_response_def schedule_keeps_settled)
  have u3: "response_inv (update_response i (r\<lparr>r_pc := pc\<rparr>) s)" for pc
    by (rule upd) (simp add: same_response_def)
  show ?thesis
  proof (cases "r_pc r")
    case AwaitImport
    with Some inv fin u1 show ?thesis
      by (simp add: resume_response_def Let_def split_beta)
  next
    case AwaitAcknowledgement
    with Some inv fin u2 show ?thesis
      by (simp add: resume_response_def Let_def split_beta)
  next
    case AwaitResponse
    with Some inv fin u3 show ?thesis
      by (simp add: resume_response_def Let_def split: outcome.splits)
  next
    case AwaitSpeak
    with Some inv fin show ?thesis
      by (simp add: resume_response_def Let_def)
  next
    case Finished
    with Some inv show ?thesis
      by (simp add: resume_response_def Let_def)
  qed
qed

lemma inv_elapse_response:
  assumes inv: "response_inv s"
  shows "response_inv (fst (elapse_response cfg i d s))"
proof (cases "responses s i")
  case None
  with inv show ?thesis by (simp add: elapse_response_def)
next
  case (Some r)
  have "response_inv (update_response i (r\<lparr>r_cues := fst (elapse d (cuePlan cfg) (r_cues r))\<rparr>) s)"
    using inv Some by (rule inv_update_response) (simp add: same_response_def elapse_keeps_settled)
  with Some show ?thesis by (simp add: elapse_response_def split_beta)
qed

lemma inv_server_step: "response_inv s \<Longrightarrow> response_inv (fst (server_step cfg ev s))"
  by (cases ev)
     (simp_all add: inv_shouldAutoRespond inv_start_response inv_resume_response
        inv_elapse_response inv_markResponseDisconnected inv_clearSingleTopicState)

lemma inv_run_server: "response_inv s \<Longrightarrow> response_inv (run_server cfg evs s)"
  by (induction evs arbitrary: s) (simp_all add: inv_server_step)

lemma inv_reachable: "response_inv (run_server cfg evs new_webhook_server)"
  using inv_init by (rule inv_run_server)

section \<open>Response generations: what is spoken, and staleness\<close>

lemma unsettled_is_current:
  assumes "response_inv s" and "responses s i = Some r" and "\<not> settled (r_cues r)"
  shows "isVoiceResponseGenerationCurrent (r_callId r) (r_generation r) s"
proof -
  from assms have "good_response s i r" by (simp add: inv_goodD)
  then obtain st where "pendingResponses s (r_callId r) = Some st"
    "disconnected st \<longrightarrow> r_generation r < generation st"
    "\<not> settled (r_cues r) \<longrightarrow> r_generation r = generation st \<and> settleCues st = Some i"
    by (rule good_responseE)
  with assms(3) show ?thesis by (auto simp: isVoiceResponseGenerationCurrent_def)
qed

lemma speaks_for_cue_actions:
  "a \<in> set (cue_actions c g cs) \<Longrightarrow> speaks_for a = Some (c, g)"
  by (auto simp: cue_actions_def)

lemma shouldAutoRespond_no_speak:
  "a \<in> set (snd (snd (shouldAutoRespondToTranscript cfg c t s))) \<Longrightarrow> speaks_for a = None"
  by (auto simp: shouldAutoRespondToTranscript_def Let_def split: option.splits if_splits)

lemma start_response_no_speak:
  "a \<in> set (snd (start_response cfg c found s)) \<Longrightarrow> speaks_for a = None"
  by (auto simp: start_response_def Let_def split_beta split: if_splits)

lemma resume_speaks_current:
  assumes "a \<in> set (snd (resume_response cfg i out s))" and "speaks_for a = Some (c, g)"
  shows "isVoiceResponseGenerationCurrent c g s"
proof (cases "responses s i")
  case None
  with assms show ?thesis by (simp add: resume_response_def)
next
  case (Some r)
  show ?thesis
  proof (cases "r_pc r")
    case AwaitImport
    with Some assms show ?thesis
      by (auto simp: resume_response_def Let_def split_beta split: if_splits
          dest!: speaks_for_cue_actions)
  next
    case AwaitAcknowledgement
    with Some assms show ?thesis
      by (auto simp: resume_response_def Let_def split_beta split: if_splits
          dest!: speaks_for_cue_actions)
  next
    case AwaitResponse
    with Some assms show ?thesis
      by (auto simp: resume_response_def Let_def split: if_splits outcome.splits)
  next
    case AwaitSpeak
    with Some assms show ?thesis
      by (auto simp: resume_response_def Let_def split: if_splits)
  next
    case Finished
    with Some assms show ?thesis
      by (simp add: resume_response_def Let_def)
  qed
qed

lemma elapse_speaks_unsettled: "snd (elapse d plan c) \<noteq> [] \<Longrightarrow> \<not> settled c"
  by (auto simp: elapse_def progress_callback_def)

lemma elapse_speaks_current:
  assumes inv: "response_inv s"
    and a: "a \<in> set (snd (elapse_response cfg i d s))" and sp: "speaks_for a = Some (c, g)"
  shows "isVoiceResponseGenerationCurrent c g s"
proof (cases "responses s i")
  case None
  with a show ?thesis by (simp add: elapse_response_def)
next
  case (Some r)
  with a have m: "a \<in> set (cue_actions (r_callId r) (r_generation r)
      (snd (elapse d (cuePlan cfg) (r_cues r))))"
    by (simp add: elapse_response_def split_beta)
  then have "snd (elapse d (cuePlan cfg) (r_cues r)) \<noteq> []" by (auto simp: cue_actions_def)
  then have "\<not> settled (r_cues r)" by (rule elapse_speaks_unsettled)
  with inv Some have "isVoiceResponseGenerationCurrent (r_callId r) (r_generation r) s"
    by (rule unsettled_is_current)
  moreover from m sp have "c = r_callId r \<and> g = r_generation r"
    by (auto dest: speaks_for_cue_actions)
  ultimately show ?thesis by simp
qed

lemma step_speaks_current:
  assumes "response_inv s" and "a \<in> set (snd (server_step cfg ev s))"
    and "speaks_for a = Some (c, g)"
  shows "isVoiceResponseGenerationCurrent c g s"
proof (cases ev)
  case (Utterance x t)
  with assms show ?thesis by (auto dest: shouldAutoRespond_no_speak)
next
  case (HandleInboundResponse x f)
  with assms show ?thesis by (auto dest: start_response_no_speak)
next
  case (Resume i out)
  with assms show ?thesis by (auto dest: resume_speaks_current)
next
  case (TimePasses i d)
  with assms show ?thesis by (auto dest: elapse_speaks_current)
next
  case (MarkResponseDisconnected x)
  with assms show ?thesis by simp
next
  case (ClearSingleTopicState x)
  with assms show ?thesis by simp
qed

lemma superseded_not_current: "superseded c g s \<Longrightarrow> \<not> isVoiceResponseGenerationCurrent c g s"
  by (auto simp: superseded_def isVoiceResponseGenerationCurrent_def)

lemma sup_mark: "superseded c g s \<Longrightarrow> superseded c g (markResponseDisconnected c' s)"
  by (cases "pendingResponses s c'")
     (auto simp: superseded_def markResponseDisconnected_def Let_def pending_run_settleCues)

lemma sup_clear: "superseded c g s \<Longrightarrow> superseded c g (clearCueController c' g' s)"
  by (auto simp: superseded_def pending_clearCueController)

lemma pending_finish_response:
  "pendingResponses (finish_response i s) =
     (case responses s i of None \<Rightarrow> pendingResponses s
      | Some r \<Rightarrow> pendingResponses (clearCueController (r_callId r) (r_generation r) s))"
  by (simp add: finish_response_def Let_def pending_settle_response split: option.splits)

lemma sup_finish: "superseded c g s \<Longrightarrow> superseded c g (finish_response i s)"
proof (cases "responses s i")
  case None
  assume "superseded c g s"
  with None show ?thesis by (simp add: finish_response_def)
next
  case (Some r)
  assume "superseded c g s"
  then have "superseded c g (clearCueController (r_callId r) (r_generation r) s)" by (rule sup_clear)
  with Some show ?thesis by (simp add: superseded_def pending_finish_response)
qed

lemma sup_update: "superseded c g (update_response i r s) = superseded c g s"
  by (simp add: superseded_def update_response_def)

lemma sup_topics: "superseded c g (x\<lparr>singleTopicStates := y\<rparr>) = superseded c g x"
  by (simp add: superseded_def)

lemma sup_shouldAutoRespond:
  "superseded c g s \<Longrightarrow> superseded c g (fst (snd (shouldAutoRespondToTranscript cfg c' t s)))"
proof -
  assume a: "superseded c g s"
  have m: "superseded c g (clearSingleTopicState c' (markResponseDisconnected c' (s\<lparr>singleTopicStates := y\<rparr>)))" for y
    using a sup_mark[of c g "s\<lparr>singleTopicStates := y\<rparr>" c']
    by (simp add: sup_topics clearSingleTopicState_def)
  from a m show ?thesis
    by (simp add: shouldAutoRespondToTranscript_def Let_def sup_topics split: option.splits)
qed

lemma sup_start: "superseded c g s \<Longrightarrow> superseded c g (fst (start_response cfg c' found s))"
proof (cases "found \<and> hasCoreConfig cfg")
  case False
  assume "superseded c g s"
  with False show ?thesis by (auto simp: start_response_def)
next
  case True
  assume a: "superseded c g s"
  from True have "pendingResponses (fst (start_response cfg c' found s)) = (pendingResponses s)
          (c' \<mapsto> \<lparr>generation = next_generation c' s, disconnected = False,
                  settleCues = Some (responseCount s)\<rparr>)"
    using start_response_effect[of cfg c' s] by simp
  with a show ?thesis
    by (auto simp: superseded_def next_generation_def)
qed

lemma sup_resume: "superseded c g s \<Longrightarrow> superseded c g (fst (resume_response cfg i out s))"
proof (cases "responses s i")
  case None
  assume "superseded c g s"
  with None show ?thesis by (simp add: resume_response_def)
next
  case (Some r)
  assume a: "superseded c g s"
  then have f: "superseded c g (finish_response i s)" by (rule sup_finish)
  from Some a f show ?thesis
    by (cases "r_pc r")
       (simp_all add: resume_response_def Let_def split_beta sup_update split: outcome.splits)
qed

lemma sup_elapse: "superseded c g s \<Longrightarrow> superseded c g (fst (elapse_response cfg i d s))"
  by (cases "responses s i") (simp_all add: elapse_response_def split_beta sup_update)

lemma sup_step: "superseded c g s \<Longrightarrow> superseded c g (fst (server_step cfg ev s))"
  by (cases ev)
     (simp_all add: sup_shouldAutoRespond sup_start sup_resume sup_elapse sup_mark
        clearSingleTopicState_def sup_topics)

lemma sup_run: "superseded c g s \<Longrightarrow> superseded c g (run_server cfg evs s)"
  by (induction evs arbitrary: s) (simp_all add: sup_step)

lemma run_server_append: "run_server cfg (xs @ ys) s = run_server cfg ys (run_server cfg xs s)"
  by (induction xs arbitrary: s) simp_all

lemma stale_is_superseded:
  assumes "response_inv s" and "responses s i = Some r"
    and "\<not> isVoiceResponseGenerationCurrent (r_callId r) (r_generation r) s"
  shows "superseded (r_callId r) (r_generation r) s"
proof -
  from assms have "good_response s i r" by (simp add: inv_goodD)
  then obtain st where "pendingResponses s (r_callId r) = Some st"
    "r_generation r \<le> generation st" "disconnected st \<longrightarrow> r_generation r < generation st"
    by (rule good_responseE)
  with assms(3) show ?thesis
    by (auto simp: superseded_def isVoiceResponseGenerationCurrent_def)
qed

lemma begin_supersedes:
  assumes inv: "response_inv s" and r: "responses s i = Some r" and cfg: "hasCoreConfig cfg"
  shows "superseded (r_callId r) (r_generation r)
           (fst (start_response cfg (r_callId r) True s))"
proof -
  from inv r have "good_response s i r" by (simp add: inv_goodD)
  then obtain st where st: "pendingResponses s (r_callId r) = Some st"
    "r_generation r \<le> generation st"
    by (rule good_responseE)
  from cfg have "pendingResponses (fst (start_response cfg (r_callId r) True s)) = (pendingResponses s)
          (r_callId r \<mapsto> \<lparr>generation = next_generation (r_callId r) s, disconnected = False,
                  settleCues = Some (responseCount s)\<rparr>)"
    using start_response_effect[of cfg "r_callId r" s] by simp
  with st show ?thesis by (simp add: superseded_def next_generation_def)
qed

lemma disconnect_supersedes:
  assumes inv: "response_inv s" and r: "responses s i = Some r"
  shows "superseded (r_callId r) (r_generation r) (markResponseDisconnected (r_callId r) s)"
proof -
  from inv r have "good_response s i r" by (simp add: inv_goodD)
  then obtain st where st: "pendingResponses s (r_callId r) = Some st"
    "r_generation r \<le> generation st"
    by (rule good_responseE)
  then show ?thesis
    by (simp add: superseded_def markResponseDisconnected_def Let_def pending_run_settleCues)
qed

lemma stale_result_dropped:
  assumes "responses s i = Some r" and "r_pc r = AwaitResponse"
    and "\<not> isVoiceResponseGenerationCurrent (r_callId r) (r_generation r) s"
  shows "resume_response cfg i (Result err text) s = (finish_response i s, [LogStale (r_callId r)])"
  using assms by (simp add: resume_response_def Let_def)

section \<open>C2: stale generations are never spoken\<close>

text \<open>
  C2. A generation is current exactly when the call has a recorded state that is not
  disconnected and whose generation it is. In every state the server can reach, whatever
  happens next (an utterance, a new response, a response resuming from an await, a timer
  expiring, a disconnection), every cue and every answer spoken is spoken for a generation
  that is current at that moment: the acknowledgement and the answer behind an explicit
  check, the progress cue because a generation that stops being current has its cues
  settled in the same step. A response that is not current stays so for ever, so nothing
  is spoken for it later; starting a newer response for the call and marking the call
  disconnected both make every earlier response of the call stale. A result that arrives
  for a stale response is dropped with a log line and the response ends.
\<close>

theorem stale_generation_never_spoken:
  "(isVoiceResponseGenerationCurrent c g s
      \<longleftrightarrow> (\<exists>st. pendingResponses s c = Some st \<and> generation st = g \<and> \<not> disconnected st))
   \<and> (\<forall>a\<in>set (snd (server_step cfg ev (run_server cfg evs new_webhook_server))).
        \<forall>c' g'. speaks_for a = Some (c', g') \<longrightarrow>
          isVoiceResponseGenerationCurrent c' g' (run_server cfg evs new_webhook_server))
   \<and> (responses (run_server cfg evs new_webhook_server) i = Some r
        \<and> \<not> isVoiceResponseGenerationCurrent (r_callId r) (r_generation r)
              (run_server cfg evs new_webhook_server)
        \<longrightarrow> (\<forall>a\<in>set (snd (server_step cfg ev' (run_server cfg (evs @ evs') new_webhook_server))).
               speaks_for a \<noteq> Some (r_callId r, r_generation r)))
   \<and> (responses (run_server cfg evs new_webhook_server) i = Some r \<and> hasCoreConfig cfg
        \<longrightarrow> \<not> isVoiceResponseGenerationCurrent (r_callId r) (r_generation r)
              (fst (server_step cfg (HandleInboundResponse (r_callId r) True)
                     (run_server cfg evs new_webhook_server))))
   \<and> (responses (run_server cfg evs new_webhook_server) i = Some r
        \<longrightarrow> \<not> isVoiceResponseGenerationCurrent (r_callId r) (r_generation r)
              (fst (server_step cfg (MarkResponseDisconnected (r_callId r))
                     (run_server cfg evs new_webhook_server))))
   \<and> (responses s i = Some r \<and> r_pc r = AwaitResponse
        \<and> \<not> isVoiceResponseGenerationCurrent (r_callId r) (r_generation r) s
        \<longrightarrow> resume_response cfg i (Result err text) s
              = (finish_response i s, [LogStale (r_callId r)]))"
proof -
  let ?s = "run_server cfg evs new_webhook_server"
  have inv: "response_inv ?s" by (rule inv_reachable)
  have c1: "isVoiceResponseGenerationCurrent c g s
      \<longleftrightarrow> (\<exists>st. pendingResponses s c = Some st \<and> generation st = g \<and> \<not> disconnected st)"
    by (auto simp: isVoiceResponseGenerationCurrent_def split: option.splits)
  have c2: "\<forall>a\<in>set (snd (server_step cfg ev ?s)).
        \<forall>c' g'. speaks_for a = Some (c', g') \<longrightarrow> isVoiceResponseGenerationCurrent c' g' ?s"
    using step_speaks_current[OF inv] by blast
  have c3: "responses ?s i = Some r
        \<and> \<not> isVoiceResponseGenerationCurrent (r_callId r) (r_generation r) ?s
        \<longrightarrow> (\<forall>a\<in>set (snd (server_step cfg ev' (run_server cfg (evs @ evs') new_webhook_server))).
               speaks_for a \<noteq> Some (r_callId r, r_generation r))"
  proof (intro impI ballI)
    fix a
    assume h: "responses ?s i = Some r
        \<and> \<not> isVoiceResponseGenerationCurrent (r_callId r) (r_generation r) ?s"
      and a: "a \<in> set (snd (server_step cfg ev' (run_server cfg (evs @ evs') new_webhook_server)))"
    let ?t = "run_server cfg (evs @ evs') new_webhook_server"
    from inv h have "superseded (r_callId r) (r_generation r) ?s"
      using stale_is_superseded by blast
    then have "superseded (r_callId r) (r_generation r) ?t"
      by (simp add: run_server_append sup_run)
    then have nc: "\<not> isVoiceResponseGenerationCurrent (r_callId r) (r_generation r) ?t"
      by (rule superseded_not_current)
    have "response_inv ?t" by (rule inv_reachable)
    with a nc show "speaks_for a \<noteq> Some (r_callId r, r_generation r)"
      using step_speaks_current by blast
  qed
  have c4: "responses ?s i = Some r \<and> hasCoreConfig cfg
        \<longrightarrow> \<not> isVoiceResponseGenerationCurrent (r_callId r) (r_generation r)
              (fst (server_step cfg (HandleInboundResponse (r_callId r) True) ?s))"
    using begin_supersedes[OF inv] superseded_not_current by auto
  have c5: "responses ?s i = Some r
        \<longrightarrow> \<not> isVoiceResponseGenerationCurrent (r_callId r) (r_generation r)
              (fst (server_step cfg (MarkResponseDisconnected (r_callId r)) ?s))"
    using disconnect_supersedes[OF inv] superseded_not_current by auto
  have c6: "responses s i = Some r \<and> r_pc r = AwaitResponse
        \<and> \<not> isVoiceResponseGenerationCurrent (r_callId r) (r_generation r) s
        \<longrightarrow> resume_response cfg i (Result err text) s
              = (finish_response i s, [LogStale (r_callId r)])"
    using stale_result_dropped by blast
  from c1 c2 c3 c4 c5 c6 show ?thesis by blast
qed

text \<open>
  C2 on a call with two utterances: the first response has spoken its acknowledgement and
  scheduled its progress cue when the second begins; its timer does not speak and its
  result is dropped.
\<close>

theorem stale_generation_never_spoken_witness:
  "responses (run_server demo_config
       [HandleInboundResponse ''call-1'' True, Resume 0 Fulfilled, Resume 0 Fulfilled,
        HandleInboundResponse ''call-1'' True] new_webhook_server) 0
     = Some \<lparr>r_callId = ''call-1'', r_generation = 1,
             r_cues = \<lparr>settled = True, progressTimer = None, scheduled = [], nextHandle = 1\<rparr>,
             r_pc = AwaitResponse\<rparr>
   \<and> \<not> isVoiceResponseGenerationCurrent ''call-1'' 1 (run_server demo_config
       [HandleInboundResponse ''call-1'' True, Resume 0 Fulfilled, Resume 0 Fulfilled,
        HandleInboundResponse ''call-1'' True] new_webhook_server)
   \<and> filter (\<lambda>a. speaks_for a = Some (''call-1'', 1))
        (snd (server_step demo_config (TimePasses 0 6000) (run_server demo_config
          ([HandleInboundResponse ''call-1'' True, Resume 0 Fulfilled, Resume 0 Fulfilled,
            HandleInboundResponse ''call-1'' True] @ [Resume 1 Fulfilled]) new_webhook_server)))
      = []
   \<and> resume_response demo_config 0 (Result None (Some ''It is sunny.'')) (run_server demo_config
       [HandleInboundResponse ''call-1'' True, Resume 0 Fulfilled, Resume 0 Fulfilled,
        HandleInboundResponse ''call-1'' True] new_webhook_server)
     = (finish_response 0 (run_server demo_config
       [HandleInboundResponse ''call-1'' True, Resume 0 Fulfilled, Resume 0 Fulfilled,
        HandleInboundResponse ''call-1'' True] new_webhook_server), [LogStale ''call-1''])"
proof -
  let ?evs = "[HandleInboundResponse ''call-1'' True, Resume 0 Fulfilled, Resume 0 Fulfilled,
        HandleInboundResponse ''call-1'' True]"
  let ?r = "\<lparr>r_callId = ''call-1'', r_generation = 1,
             r_cues = \<lparr>settled = True, progressTimer = None, scheduled = [], nextHandle = 1\<rparr>,
             r_pc = AwaitResponse\<rparr>"
  have h1: "responses (run_server demo_config ?evs new_webhook_server) 0 = Some ?r"
    by code_simp
  have h2: "\<not> isVoiceResponseGenerationCurrent ''call-1'' 1
              (run_server demo_config ?evs new_webhook_server)"
    by code_simp
  show ?thesis
    using h1 h2
      stale_generation_never_spoken[of "''call-1''" 1 "run_server demo_config ?evs new_webhook_server"
        demo_config "TimePasses 0 6000" ?evs 0 ?r "TimePasses 0 6000" "[Resume 1 Fulfilled]"
        None "Some ''It is sunny.''"]
    by (simp add: filter_empty_conv)
qed

section \<open>C6: the size of the topic anchor\<close>

text \<open>
  What the merge does guarantee: an anchor below the limit grows to the limit at most, and
  an anchor at or above the limit still grows, by one keyword a merge.
\<close>

lemma merge_loop_bound:
  "length (merge_loop merged seen ks) \<le> max (length merged + 1) SINGLE_TOPIC_ANCHOR_KEYWORD_LIMIT"
proof (induction ks arbitrary: merged seen)
  case Nil
  show ?case by simp
next
  case (Cons k ks)
  show ?case
  proof (cases "k \<in> set seen")
    case True
    with Cons.IH[of merged seen] show ?thesis by simp
  next
    case False
    show ?thesis
    proof (cases "length (merged @ [k]) \<ge> SINGLE_TOPIC_ANCHOR_KEYWORD_LIMIT")
      case True
      with False show ?thesis by (simp add: Let_def)
    next
      case nl: False
      with False Cons.IH[of "merged @ [k]" "k # seen"] show ?thesis
        by (simp add: Let_def)
    qed
  qed
qed

lemma mergeTopicKeywords_bound:
  "length (mergeTopicKeywords anchor tk) \<le> max (length anchor + 1) SINGLE_TOPIC_ANCHOR_KEYWORD_LIMIT"
  unfolding mergeTopicKeywords_def by (rule merge_loop_bound)

text \<open>On a disallowed utterance the anchor is kept and the drift counter goes up by one.\<close>

lemma drift_keeps_anchor:
  assumes "singleTopic cfg = Some st" and "st_enabled st"
    and "singleTopicStates s c = Some e"
    and "\<not> allow (evaluateSingleTopicTranscript t (anchorKeywords e) (st_minKeywords st))"
    and "\<not> establishAnchor (evaluateSingleTopicTranscript t (anchorKeywords e) (st_minKeywords st))"
    and "\<not> st_endCallOnDrift st"
  shows "\<not> fst (shouldAutoRespondToTranscript cfg c t s)
    \<and> singleTopicStates (fst (snd (shouldAutoRespondToTranscript cfg c t s))) c
        = Some \<lparr>anchorKeywords = anchorKeywords e, driftCount = driftCount e + 1\<rparr>"
  using assms by (simp add: shouldAutoRespondToTranscript_def Let_def)

lemma sixteen_keywords:
  "extractTopicKeywords
     ''alpha bravo charlie delta echo foxtrot golf hotel india juliet kilo lima mike november oscar papa''
   = [''alpha'', ''bravo'', ''charlie'', ''delta'', ''echo'', ''foxtrot'', ''golf'', ''hotel'',
      ''india'', ''juliet'', ''kilo'', ''lima'', ''mike'', ''november'', ''oscar'', ''papa'']"
  by code_simp

lemma two_keywords: "extractTopicKeywords ''alpha quebec'' = [''alpha'', ''quebec'']"
  by code_simp

text \<open>
  C6 fails on the code: with the topic guard enabled and a threshold of two keywords, a
  first utterance of sixteen keywords establishes an anchor of sixteen, the limit; a second
  utterance that shares one keyword and brings a new one is allowed, and the merge pushes
  the new keyword before it compares the length with the limit. The anchor has seventeen
  keywords afterwards.
\<close>

theorem anchor_exceeds_limit:
  "map_option anchorKeywords
     (singleTopicStates
        (run_server drift_config
           [Utterance ''call-1''
              ''alpha bravo charlie delta echo foxtrot golf hotel india juliet kilo lima mike november oscar papa'',
            Utterance ''call-1'' ''alpha quebec'']
           new_webhook_server) ''call-1'')
   = Some [''alpha'', ''bravo'', ''charlie'', ''delta'', ''echo'', ''foxtrot'', ''golf'', ''hotel'',
           ''india'', ''juliet'', ''kilo'', ''lima'', ''mike'', ''november'', ''oscar'', ''papa'',
           ''quebec'']
   \<and> SINGLE_TOPIC_ANCHOR_KEYWORD_LIMIT
       < length [''alpha'', ''bravo'', ''charlie'', ''delta'', ''echo'', ''foxtrot'', ''golf'',
           ''hotel'', ''india'', ''juliet'', ''kilo'', ''lima'', ''mike'', ''november'', ''oscar'',
           ''papa'', ''quebec'']"
  by (simp add: drift_config_def new_webhook_server_def shouldAutoRespondToTranscript_def
      evaluateSingleTopicTranscript_def sixteen_keywords two_keywords Let_def
      mergeTopicKeywords_def SINGLE_TOPIC_ANCHOR_KEYWORD_LIMIT_def)

section \<open>C9: a webhook that fails verification\<close>

lemma handleRequest_unverified:
  assumes "\<And>body. req_body req = BodyRead body \<Longrightarrow> \<not> ok (verifyWebhook provider (context_of req body))"
  shows "fst (snd (handleRequest provider mgr env req ms)) = ms
    \<and> set (snd (snd (handleRequest provider mgr env req ms))) \<subseteq> {VerifyWebhook}"
proof (cases "req_body req")
  case (BodyRead body)
  with assms have "\<not> ok (verifyWebhook provider (context_of req body))" by simp
  with BodyRead show ?thesis
    by (simp add: handleRequest_def Let_def split: option.splits)
next
  case PayloadTooLarge
  then show ?thesis by (simp add: handleRequest_def split: option.splits)
next
  case RequestBodyTimeout
  then show ?thesis by (simp add: handleRequest_def split: option.splits)
next
  case BodyReadFailed
  then show ?thesis by (simp add: handleRequest_def split: option.splits)
qed

text \<open>
  C9: a POST to the webhook path whose body was read and whose verification by the provider
  adapter is not ok is answered with 401 Unauthorized; the only call made is the one to
  \<^verbatim>\<open>verifyWebhook\<close>, so \<^verbatim>\<open>parseWebhookEvent\<close> is not consulted and no event reaches
  \<^verbatim>\<open>processEvent\<close>; the manager and the server's own tables are as before. For any request at
  all whose verification would fail, nothing but \<^verbatim>\<open>verifyWebhook\<close> is called and nothing
  changes.
\<close>

theorem unverified_webhook_rejected:
  "(req_pathname req = Some pathname
      \<and> take (length (webhookPath env)) pathname = webhookPath env
      \<and> req_method req = ''POST''
      \<and> req_body req = BodyRead body
      \<and> \<not> ok (verifyWebhook provider (context_of req body))
    \<longrightarrow> handleRequest provider mgr env req ms
          = (Some \<lparr>statusCode = 401, responseBody = ''Unauthorized'', responseHeaders = []\<rparr>,
             ms, [VerifyWebhook]))
   \<and> ((\<forall>b. req_body req = BodyRead b \<longrightarrow> \<not> ok (verifyWebhook provider (context_of req b)))
    \<longrightarrow> fst (snd (handleRequest provider mgr env req ms)) = ms
        \<and> ParseWebhookEvent \<notin> set (snd (snd (handleRequest provider mgr env req ms)))
        \<and> (\<forall>e. ProcessEvent e \<notin> set (snd (snd (handleRequest provider mgr env req ms)))))"
proof (intro conjI impI)
  assume "req_pathname req = Some pathname
      \<and> take (length (webhookPath env)) pathname = webhookPath env
      \<and> req_method req = ''POST''
      \<and> req_body req = BodyRead body
      \<and> \<not> ok (verifyWebhook provider (context_of req body))"
  then show "handleRequest provider mgr env req ms
          = (Some \<lparr>statusCode = 401, responseBody = ''Unauthorized'', responseHeaders = []\<rparr>,
             ms, [VerifyWebhook])"
    by (simp add: handleRequest_def Let_def)
next
  assume a: "\<forall>b. req_body req = BodyRead b \<longrightarrow> \<not> ok (verifyWebhook provider (context_of req b))"
  then have u: "fst (snd (handleRequest provider mgr env req ms)) = ms
    \<and> set (snd (snd (handleRequest provider mgr env req ms))) \<subseteq> {VerifyWebhook}"
    using handleRequest_unverified[of req provider mgr env ms] by blast
  from u show "fst (snd (handleRequest provider mgr env req ms)) = ms" by simp
  from u show "ParseWebhookEvent \<notin> set (snd (snd (handleRequest provider mgr env req ms)))" by auto
  from u show "\<forall>e. ProcessEvent e \<notin> set (snd (snd (handleRequest provider mgr env req ms)))" by auto
qed

text \<open>
  C9 on a POST to the webhook path, with a provider adapter that rejects every signature and
  would otherwise report a \<^verbatim>\<open>call.ended\<close> event.
\<close>

theorem unverified_webhook_rejected_witness:
  "req_pathname demo_request = Some ''/voice/webhook''
   \<and> take (length (webhookPath \<lparr>webhookPath = ''/voice/webhook'', requestBodyTimeoutText = ''Request body timeout''\<rparr>))
        ''/voice/webhook''
      = webhookPath \<lparr>webhookPath = ''/voice/webhook'', requestBodyTimeoutText = ''Request body timeout''\<rparr>
   \<and> req_method demo_request = ''POST''
   \<and> req_body demo_request = BodyRead ''CallStatus=completed''
   \<and> \<not> ok (verifyWebhook rejecting_provider (context_of demo_request ''CallStatus=completed''))
   \<and> handleRequest rejecting_provider (spec_manager_interface (\<lambda>r. False) ''call-2'')
        \<lparr>webhookPath = ''/voice/webhook'', requestBodyTimeoutText = ''Request body timeout''\<rparr>
        demo_request (new_call_manager PolicyOpen [], new_webhook_server)
      = (Some \<lparr>statusCode = 401, responseBody = ''Unauthorized'', responseHeaders = []\<rparr>,
         (new_call_manager PolicyOpen [], new_webhook_server), [VerifyWebhook])"
proof -
  have h: "req_pathname demo_request = Some ''/voice/webhook''
   \<and> take (length (webhookPath \<lparr>webhookPath = ''/voice/webhook'', requestBodyTimeoutText = ''Request body timeout''\<rparr>))
        ''/voice/webhook''
      = webhookPath \<lparr>webhookPath = ''/voice/webhook'', requestBodyTimeoutText = ''Request body timeout''\<rparr>
   \<and> req_method demo_request = ''POST''
   \<and> req_body demo_request = BodyRead ''CallStatus=completed''
   \<and> \<not> ok (verifyWebhook rejecting_provider (context_of demo_request ''CallStatus=completed''))"
    by (simp add: demo_request_def rejecting_provider_def)
  with unverified_webhook_rejected[of demo_request "''/voice/webhook''"
      "\<lparr>webhookPath = ''/voice/webhook'', requestBodyTimeoutText = ''Request body timeout''\<rparr>"
      "''CallStatus=completed''" rejecting_provider
      "spec_manager_interface (\<lambda>r. False) ''call-2''"
      "(new_call_manager PolicyOpen [], new_webhook_server)"]
  show ?thesis by blast
qed

section \<open>C3: the inbound allowlist\<close>

text \<open>
  C3, on the manager of the specification: under the \<^verbatim>\<open>allowlist\<close> policy, an inbound
  \<^verbatim>\<open>call.initiated\<close> event for which no record exists creates a record exactly when its
  \<^verbatim>\<open>from\<close> number is an element of \<^verbatim>\<open>allowFrom\<close>. Then the record is stored under the
  generated identifier and found under the event's provider call id, and no hang-up is
  requested. Otherwise, also when \<^verbatim>\<open>from\<close> is absent, a hang-up is requested with the
  event's provider call id, the store and the index are unchanged, and neither lookup
  resolves the call.
\<close>

theorem allowlist_exact_match:
  "inboundPolicy m = PolicyAllowlist \<and> ev_type event = CallInitiated
     \<and> ev_direction event = Some Inbound \<and> cm_findCall m event = None
   \<longrightarrow>
   ((\<exists>f. ev_from event = Some f \<and> f \<in> set (allowFrom m)) \<longrightarrow>
      (\<exists>r. cm_getCall (cm_processEvent throws newId event m) newId = Some r
           \<and> cr_callId r = newId \<and> cr_from r = ev_from event \<and> cr_state r = Initiated
           \<and> cr_direction r = Inbound \<and> cr_providerCallId r = ev_providerCallId event
           \<and> (\<forall>p. ev_providerCallId event = Some p \<longrightarrow>
                 cm_getCallByProviderCallId (cm_processEvent throws newId event m) p = Some r))
      \<and> hangupRequests (cm_processEvent throws newId event m) = hangupRequests m)
   \<and> (\<not> (\<exists>f. ev_from event = Some f \<and> f \<in> set (allowFrom m)) \<longrightarrow>
      hangupRequests (cm_processEvent throws newId event m)
        = hangupRequests m @ [ev_providerCallId event]
      \<and> activeCalls (cm_processEvent throws newId event m) = activeCalls m
      \<and> providerCallIdMap (cm_processEvent throws newId event m) = providerCallIdMap m
      \<and> endedCallbacks (cm_processEvent throws newId event m) = endedCallbacks m
      \<and> cm_getCall (cm_processEvent throws newId event m) (ev_callId event) = None
      \<and> (\<forall>p. ev_providerCallId event = Some p \<longrightarrow>
            cm_getCallByProviderCallId (cm_processEvent throws newId event m) p = None))"
proof (intro impI conjI)
  assume h: "inboundPolicy m = PolicyAllowlist \<and> ev_type event = CallInitiated
     \<and> ev_direction event = Some Inbound \<and> cm_findCall m event = None"
  assume l: "\<exists>f. ev_from event = Some f \<and> f \<in> set (allowFrom m)"
  then have acc: "cm_shouldAcceptInbound m (ev_from event)"
    using h by (auto simp: cm_shouldAcceptInbound_def)
  let ?m' = "cm_processEvent throws newId event m"
  let ?r = "\<lparr>cr_callId = newId, cr_providerCallId = ev_providerCallId event,
             cr_direction = Inbound, cr_state = Initiated, cr_from = ev_from event,
             cr_to = ev_to event, cr_startedAt = ev_timestamp event,
             cr_transcript = [], cr_processedEventIds = [ev_id event],
             cr_endReason = None, cr_endedCallbackFired = False\<rparr>"
  have a: "cm_getCall ?m' newId = Some ?r"
    using h acc
    by (simp add: cm_processEvent_def Let_def store_call_def cm_getCall_def split: option.splits)
  have b: "\<forall>p. ev_providerCallId event = Some p \<longrightarrow> cm_getCallByProviderCallId ?m' p = Some ?r"
    using h acc
    by (simp add: cm_processEvent_def Let_def store_call_def cm_getCallByProviderCallId_def)
  from a b show "\<exists>r. cm_getCall ?m' newId = Some r
           \<and> cr_callId r = newId \<and> cr_from r = ev_from event \<and> cr_state r = Initiated
           \<and> cr_direction r = Inbound \<and> cr_providerCallId r = ev_providerCallId event
           \<and> (\<forall>p. ev_providerCallId event = Some p \<longrightarrow>
                 cm_getCallByProviderCallId ?m' p = Some r)"
    by simp
  show "hangupRequests ?m' = hangupRequests m"
    using h acc
    by (simp add: cm_processEvent_def Let_def store_call_def split: option.splits)
next
  assume h: "inboundPolicy m = PolicyAllowlist \<and> ev_type event = CallInitiated
     \<and> ev_direction event = Some Inbound \<and> cm_findCall m event = None"
  assume l: "\<not> (\<exists>f. ev_from event = Some f \<and> f \<in> set (allowFrom m))"
  then have rej: "\<not> cm_shouldAcceptInbound m (ev_from event)"
    using h by (auto simp: cm_shouldAcceptInbound_def split: option.splits)
  let ?m' = "cm_processEvent throws newId event m"
  have e: "?m' = m\<lparr>hangupRequests := hangupRequests m @ [ev_providerCallId event]\<rparr>"
    using h rej by (simp add: cm_processEvent_def)
  show "hangupRequests ?m' = hangupRequests m @ [ev_providerCallId event]" by (simp add: e)
  show "activeCalls ?m' = activeCalls m" by (simp add: e)
  show "providerCallIdMap ?m' = providerCallIdMap m" by (simp add: e)
  show "endedCallbacks ?m' = endedCallbacks m" by (simp add: e)
  from h have f: "cm_getCall m (ev_callId event) = None"
    "\<forall>p. ev_providerCallId event = Some p \<longrightarrow> cm_getCallByProviderCallId m p = None"
    by (auto simp: cm_findCall_def split: option.splits)
  show "cm_getCall ?m' (ev_callId event) = None"
    using f by (simp add: e cm_getCall_def)
  show "\<forall>p. ev_providerCallId event = Some p \<longrightarrow> cm_getCallByProviderCallId ?m' p = None"
    using f by (auto simp: e cm_getCallByProviderCallId_def split: option.splits)
qed

text \<open>
  C3 at the three events of manager.test.ts with \<^verbatim>\<open>allowFrom = ["+15550001234"]\<close>: a number
  that ends with the listed one, no number, and the listed number.
\<close>

theorem allowlist_exact_match_witness:
  "cm_getCallByProviderCallId
      (cm_processEvent (\<lambda>r. False) ''generated-1''
         (inbound_call ''evt-allowlist-suffix'' ''call-suffix'' ''provider-suffix''
            (Some ''+99915550001234''))
         (new_call_manager PolicyAllowlist [''+15550001234''])) ''provider-suffix'' = None
   \<and> hangupRequests
      (cm_processEvent (\<lambda>r. False) ''generated-1''
         (inbound_call ''evt-allowlist-suffix'' ''call-suffix'' ''provider-suffix''
            (Some ''+99915550001234''))
         (new_call_manager PolicyAllowlist [''+15550001234''])) = [Some ''provider-suffix'']
   \<and> cm_getCallByProviderCallId
      (cm_processEvent (\<lambda>r. False) ''generated-1''
         (inbound_call ''evt-allowlist-missing'' ''call-missing'' ''provider-missing'' None)
         (new_call_manager PolicyAllowlist [''+15550001234''])) ''provider-missing'' = None
   \<and> hangupRequests
      (cm_processEvent (\<lambda>r. False) ''generated-1''
         (inbound_call ''evt-allowlist-missing'' ''call-missing'' ''provider-missing'' None)
         (new_call_manager PolicyAllowlist [''+15550001234''])) = [Some ''provider-missing'']
   \<and> map_option cr_callId (cm_getCallByProviderCallId
      (cm_processEvent (\<lambda>r. False) ''generated-1''
         (inbound_call ''evt-allowlist-exact'' ''call-exact'' ''provider-exact''
            (Some ''+15550001234''))
         (new_call_manager PolicyAllowlist [''+15550001234''])) ''provider-exact'')
      = Some ''generated-1''"
proof -
  let ?m = "new_call_manager PolicyAllowlist [''+15550001234'']"
  let ?suffix = "inbound_call ''evt-allowlist-suffix'' ''call-suffix'' ''provider-suffix''
            (Some ''+99915550001234'')"
  let ?missing = "inbound_call ''evt-allowlist-missing'' ''call-missing'' ''provider-missing'' None"
  let ?exact = "inbound_call ''evt-allowlist-exact'' ''call-exact'' ''provider-exact''
            (Some ''+15550001234'')"
  have pre: "inboundPolicy ?m = PolicyAllowlist \<and> ev_type (inbound_call a b c d) = CallInitiated
     \<and> ev_direction (inbound_call a b c d) = Some Inbound
     \<and> cm_findCall ?m (inbound_call a b c d) = None
     \<and> ev_providerCallId (inbound_call a b c d) = Some c
     \<and> ev_from (inbound_call a b c d) = d" for a b c d
    by (simp add: new_call_manager_def inbound_call_def blank_event_def cm_findCall_def
        cm_getCallByProviderCallId_def cm_getCall_def)
  have l1: "\<not> (\<exists>f. ev_from ?suffix = Some f \<and> f \<in> set (allowFrom ?m))"
    by (simp add: pre new_call_manager_def)
  have l2: "\<not> (\<exists>f. ev_from ?missing = Some f \<and> f \<in> set (allowFrom ?m))"
    by (simp add: pre)
  have l3: "\<exists>f. ev_from ?exact = Some f \<and> f \<in> set (allowFrom ?m)"
    by (simp add: pre new_call_manager_def)
  have h0: "hangupRequests ?m = []" by (simp add: new_call_manager_def)
  from allowlist_exact_match[of ?m ?suffix "\<lambda>r. False" "''generated-1''"] pre l1 h0
  have s: "cm_getCallByProviderCallId (cm_processEvent (\<lambda>r. False) ''generated-1'' ?suffix ?m)
              ''provider-suffix'' = None
      \<and> hangupRequests (cm_processEvent (\<lambda>r. False) ''generated-1'' ?suffix ?m)
          = [Some ''provider-suffix'']"
    by simp
  from allowlist_exact_match[of ?m ?missing "\<lambda>r. False" "''generated-1''"] pre l2 h0
  have m: "cm_getCallByProviderCallId (cm_processEvent (\<lambda>r. False) ''generated-1'' ?missing ?m)
              ''provider-missing'' = None
      \<and> hangupRequests (cm_processEvent (\<lambda>r. False) ''generated-1'' ?missing ?m)
          = [Some ''provider-missing'']"
    by simp
  from allowlist_exact_match[of ?m ?exact "\<lambda>r. False" "''generated-1''"] pre l3
  have e: "map_option cr_callId (cm_getCallByProviderCallId
             (cm_processEvent (\<lambda>r. False) ''generated-1'' ?exact ?m) ''provider-exact'')
           = Some ''generated-1''"
    by auto
  from s m e show ?thesis by blast
qed

section \<open>The call manager of the specification: the ended-callback\<close>

lemma manager_inv_cong:
  "activeCalls m' = activeCalls m \<Longrightarrow> endedCallbacks m' = endedCallbacks m
    \<Longrightarrow> manager_inv c m' = manager_inv c m"
  by (simp add: manager_inv_def ended_count_def)

lemma findCall_stored:
  assumes "manager_inv c m" and "cm_findCall m event = Some r"
  shows "activeCalls m (cr_callId r) = Some r"
proof -
  from assms(2) obtain k where "activeCalls m k = Some r"
    by (auto simp: cm_findCall_def cm_getCallByProviderCallId_def cm_getCall_def
        split: option.splits)
  moreover with assms(1) have "cr_callId r = k" by (simp add: manager_inv_def)
  ultimately show ?thesis by simp
qed

lemma inv_store_call:
  assumes inv: "manager_inv c m"
    and fired: "cr_callId r = c \<Longrightarrow> ended_count c m = 1 \<Longrightarrow> cr_endedCallbackFired r"
  shows "manager_inv c (store_call r m)"
  using assms by (auto simp: manager_inv_def store_call_def ended_count_def)

lemma ended_count_store: "ended_count c (store_call r m) = ended_count c m"
  by (simp add: ended_count_def store_call_def)

lemma inv_notifyEnded:
  assumes inv: "manager_inv c m"
    and fired: "cr_callId r = c \<Longrightarrow> ended_count c m = 1 \<Longrightarrow> cr_endedCallbackFired r"
  shows "manager_inv c (cm_notifyEnded throws r m)"
proof (cases "cr_endedCallbackFired r")
  case True
  with inv fired show ?thesis by (simp add: cm_notifyEnded_def inv_store_call)
next
  case False
  let ?r' = "r\<lparr>cr_endedCallbackFired := True\<rparr>"
  let ?m2 = "(store_call ?r' m)\<lparr>endedCallbacks := endedCallbacks (store_call ?r' m) @ [?r']\<rparr>"
  have "manager_inv c ?m2"
  proof (cases "cr_callId r = c")
    case True
    with False fired inv have z: "ended_count c m = 0" by (auto simp: manager_inv_def)
    with inv True show ?thesis
      by (auto simp: manager_inv_def store_call_def ended_count_def)
  next
    case nc: False
    with inv show ?thesis
      by (auto simp: manager_inv_def store_call_def ended_count_def)
  qed
  moreover have "manager_inv c (?m2\<lparr>loggedErrors := n\<rparr>) = manager_inv c ?m2" for n
    by (rule manager_inv_cong) simp_all
  ultimately show ?thesis using False by (simp add: cm_notifyEnded_def Let_def)
qed

lemma promote_props:
  "cr_callId (fst (cm_promote event r m)) = cr_callId r
   \<and> cr_endedCallbackFired (fst (cm_promote event r m)) = cr_endedCallbackFired r
   \<and> cr_state (fst (cm_promote event r m)) = cr_state r
   \<and> activeCalls (snd (cm_promote event r m)) = activeCalls m
   \<and> endedCallbacks (snd (cm_promote event r m)) = endedCallbacks m
   \<and> hangupRequests (snd (cm_promote event r m)) = hangupRequests m
   \<and> loggedErrors (snd (cm_promote event r m)) = loggedErrors m"
  by (simp add: cm_promote_def Let_def split: option.splits)

lemma inv_promote: "manager_inv c (snd (cm_promote event r m)) = manager_inv c m"
  by (rule manager_inv_cong) (simp_all add: promote_props)

lemma ended_count_promote: "ended_count c (snd (cm_promote event r m)) = ended_count c m"
  by (simp add: ended_count_def promote_props)

lemma inv_processEvent:
  assumes inv: "manager_inv c m" and fresh: "newId \<noteq> c"
  shows "manager_inv c (cm_processEvent throws newId event m)"
proof (cases "cm_findCall m event")
  case None
  have a: "manager_inv c (m\<lparr>hangupRequests := h\<rparr>)" for h
    using inv manager_inv_cong[of "m\<lparr>hangupRequests := h\<rparr>" m c] by simp
  have b: "manager_inv c ((store_call r m)\<lparr>providerCallIdMap := x\<rparr>) = manager_inv c (store_call r m)" for r x
    by (rule manager_inv_cong) simp_all
  have s: "manager_inv c (store_call r m)" if "cr_callId r = newId" for r
    using inv that fresh by (intro inv_store_call) simp_all
  from None inv a b s show ?thesis
    by (simp add: cm_processEvent_def Let_def split: option.splits)
next
  case (Some r)
  from inv Some have st: "activeCalls m (cr_callId r) = Some r" by (rule findCall_stored)
  have fired: "cr_endedCallbackFired r" if "cr_callId r = c" "ended_count c m = 1"
    using inv st that by (auto simp: manager_inv_def)
  let ?r1 = "r\<lparr>cr_processedEventIds := cr_processedEventIds r @ [ev_id event]\<rparr>"
  let ?r2 = "fst (cm_promote event ?r1 m)" and ?m1 = "snd (cm_promote event ?r1 m)"
  have i1: "manager_inv c ?m1" using inv by (simp add: inv_promote)
  have p: "cr_callId ?r2 = cr_callId r" "cr_endedCallbackFired ?r2 = cr_endedCallbackFired r"
    by (simp_all add: promote_props)
  have f2: "cr_endedCallbackFired (f ?r2)"
    if "cr_callId (f ?r2) = c" "ended_count c ?m1 = 1"
      "cr_callId (f ?r2) = cr_callId ?r2" "cr_endedCallbackFired (f ?r2) = cr_endedCallbackFired ?r2"
    for f :: "call_record \<Rightarrow> call_record"
    using that fired p by (simp add: ended_count_promote)
  have sA: "manager_inv c (store_call ?r1 m)"
    using inv fired by (intro inv_store_call) simp_all
  have sB: "manager_inv c (store_call (f ?r2) ?m1)"
    if "cr_callId (f ?r2) = cr_callId ?r2" "cr_endedCallbackFired (f ?r2) = cr_endedCallbackFired ?r2"
    for f
    using i1 that f2[of f] by (intro inv_store_call) simp_all
  have sC: "manager_inv c (cm_notifyEnded throws (f ?r2) ?m1)"
    if "cr_callId (f ?r2) = cr_callId ?r2" "cr_endedCallbackFired (f ?r2) = cr_endedCallbackFired ?r2"
    for f
    using i1 that f2[of f] by (intro inv_notifyEnded) simp_all
  have s0: "manager_inv c (store_call ?r2 ?m1)" using sB[of "\<lambda>x. x"] by simp
  have s1: "manager_inv c (store_call (?r2\<lparr>cr_state := Answered\<rparr>) ?m1)"
    using sB[of "\<lambda>x. x\<lparr>cr_state := Answered\<rparr>"] by simp
  have s2: "manager_inv c (store_call (?r2\<lparr>cr_transcript := t\<rparr>) ?m1)" for t
    using sB[of "\<lambda>x. x\<lparr>cr_transcript := t\<rparr>"] by simp
  have s3: "manager_inv c (cm_notifyEnded throws (?r2\<lparr>cr_state := st', cr_endReason := er\<rparr>) ?m1)"
    for st' er
    using sC[of "\<lambda>x. x\<lparr>cr_state := st', cr_endReason := er\<rparr>"] by simp
  from Some inv sA s0 s1 s2 s3 show ?thesis
    by (simp add: cm_processEvent_def Let_def split_beta split: event_type.splits)
qed

lemma inv_endCall:
  assumes inv: "manager_inv c m"
  shows "manager_inv c (fst (cm_endCall throws callId hangupOk m))"
proof (cases "cm_getCall m callId")
  case None
  with inv show ?thesis by (simp add: cm_endCall_def)
next
  case (Some r)
  then have st: "activeCalls m callId = Some r" by (simp add: cm_getCall_def)
  with inv have k: "cr_callId r = callId" by (simp add: manager_inv_def)
  let ?m1 = "m\<lparr>hangupRequests := hangupRequests m @ [cr_providerCallId r]\<rparr>"
  have i1: "manager_inv c ?m1"
    using inv manager_inv_cong[of ?m1 m c] by simp
  have c1: "ended_count c ?m1 = ended_count c m" by (simp add: ended_count_def)
  have "manager_inv c (cm_notifyEnded throws (r\<lparr>cr_state := Ended, cr_endReason := Some ''hangup-bot''\<rparr>) ?m1)"
  proof (rule inv_notifyEnded[OF i1])
    assume "cr_callId (r\<lparr>cr_state := Ended, cr_endReason := Some ''hangup-bot''\<rparr>) = c"
      and "ended_count c ?m1 = 1"
    with inv st k c1 show "cr_endedCallbackFired (r\<lparr>cr_state := Ended, cr_endReason := Some ''hangup-bot''\<rparr>)"
      by (auto simp: manager_inv_def)
  qed
  with Some inv i1 show ?thesis by (simp add: cm_endCall_def Let_def)
qed

lemma inv_manager_step:
  "manager_inv c m \<Longrightarrow> generated_id cmd \<noteq> Some c \<Longrightarrow> manager_inv c (manager_step throws cmd m)"
  by (cases cmd) (simp_all add: inv_processEvent inv_endCall)

lemma inv_run_manager:
  "manager_inv c m \<Longrightarrow> \<forall>cmd\<in>set cmds. generated_id cmd \<noteq> Some c
    \<Longrightarrow> manager_inv c (run_manager throws cmds m)"
  by (induction cmds arbitrary: m) (simp_all add: inv_manager_step)

lemma inv_new_call_manager: "manager_inv c (new_call_manager policy allowed)"
  by (simp add: manager_inv_def new_call_manager_def ended_count_def)

lemma ended_count_callbacks: "ended_count c m = length (callbacks_for c m)"
  by (simp add: ended_count_def callbacks_for_def)

lemma notifyEnded_effect:
  "cm_notifyEnded throws r m =
     (if cr_endedCallbackFired r then store_call r m
      else (store_call (r\<lparr>cr_endedCallbackFired := True\<rparr>) m)
             \<lparr>endedCallbacks := endedCallbacks m @ [r\<lparr>cr_endedCallbackFired := True\<rparr>],
              loggedErrors := loggedErrors m
                 + (if throws (r\<lparr>cr_endedCallbackFired := True\<rparr>) then 1 else 0)\<rparr>)"
  by (simp add: cm_notifyEnded_def Let_def store_call_def)

lemma trigger_fires:
  assumes inv: "manager_inv c m" and st: "activeCalls m c = Some r"
    and nt: "\<not> is_terminal (cr_state r)" and nf: "\<not> cr_endedCallbackFired r"
    and tr: "terminal_trigger c r m cmd"
  shows "\<exists>snap. activeCalls (manager_step throws cmd m) c = Some snap
      \<and> endedCallbacks (manager_step throws cmd m) = endedCallbacks m @ [snap]
      \<and> cr_callId snap = c \<and> is_terminal (cr_state snap) \<and> cr_endedCallbackFired snap
      \<and> cr_endReason snap = trigger_reason cmd
      \<and> loggedErrors (manager_step throws cmd m) = loggedErrors m + (if throws snap then 1 else 0)"
proof -
  from inv st have k: "cr_callId r = c" by (simp add: manager_inv_def)
  show ?thesis
  proof (cases cmd)
    case (EndCallCommand callId hangupOk)
    with tr st nf k show ?thesis
      by (auto simp: cm_endCall_def cm_getCall_def Let_def notifyEnded_effect store_call_def
          is_terminal_def)
  next
    case (Event event newId)
    let ?r1 = "r\<lparr>cr_processedEventIds := cr_processedEventIds r @ [ev_id event]\<rparr>"
    let ?r2 = "fst (cm_promote event ?r1 m)" and ?m1 = "snd (cm_promote event ?r1 m)"
    have p: "cr_callId ?r2 = c" "\<not> cr_endedCallbackFired ?r2"
      "endedCallbacks ?m1 = endedCallbacks m" "loggedErrors ?m1 = loggedErrors m"
      using k nf by (simp_all add: promote_props)
    from Event tr have f: "cm_findCall m event = Some r"
      "ev_id event \<notin> set (cr_processedEventIds r)" by simp_all
    from Event tr consider (ended) "ev_type event = CallEnded"
      | (error) "ev_type event = CallError" "\<not> truthy_bool (ev_retryable event)" by auto
    then show ?thesis
    proof cases
      case ended
      with Event f nt p show ?thesis
        by (simp add: cm_processEvent_def Let_def split_beta notifyEnded_effect store_call_def
            is_terminal_def)
    next
      case error
      with Event f nt p show ?thesis
        by (simp add: cm_processEvent_def Let_def split_beta notifyEnded_effect store_call_def
            is_terminal_def)
    qed
  qed
qed

lemma active_store_other: "cr_callId x \<noteq> c \<Longrightarrow> activeCalls (store_call x m) c = activeCalls m c"
  by (simp add: store_call_def)

lemma active_notify_other:
  "cr_callId x \<noteq> c \<Longrightarrow> activeCalls (cm_notifyEnded throws x m) c = activeCalls m c"
  by (simp add: notifyEnded_effect store_call_def)

lemma callbacks_store: "endedCallbacks (store_call x m) = endedCallbacks m"
  by (simp add: store_call_def)

lemma callbacks_notify:
  "\<exists>xs. endedCallbacks (cm_notifyEnded throws x m) = endedCallbacks m @ xs"
  by (simp add: notifyEnded_effect store_call_def)

lemma callbacks_processEvent:
  "\<exists>xs. endedCallbacks (cm_processEvent throws newId event m) = endedCallbacks m @ xs"
proof (cases "cm_findCall m event")
  case None
  then show ?thesis
    by (simp add: cm_processEvent_def Let_def store_call_def split: option.splits)
next
  case (Some r)
  let ?r1 = "r\<lparr>cr_processedEventIds := cr_processedEventIds r @ [ev_id event]\<rparr>"
  let ?m1 = "snd (cm_promote event ?r1 m)"
  have n: "\<exists>xs. endedCallbacks (cm_notifyEnded throws x ?m1) = endedCallbacks m @ xs" for x
    using callbacks_notify[of throws x ?m1] by (simp add: promote_props)
  from Some n show ?thesis
    by (simp add: cm_processEvent_def Let_def split_beta callbacks_store promote_props
        split: event_type.splits)
qed

lemma callbacks_endCall:
  "\<exists>xs. endedCallbacks (fst (cm_endCall throws callId hangupOk m)) = endedCallbacks m @ xs"
proof (cases "cm_getCall m callId")
  case None
  then show ?thesis by (simp add: cm_endCall_def)
next
  case (Some r)
  have "\<exists>xs. endedCallbacks (cm_notifyEnded throws x (m\<lparr>hangupRequests := h\<rparr>))
          = endedCallbacks m @ xs" for x h
    using callbacks_notify[of throws x "m\<lparr>hangupRequests := h\<rparr>"] by simp
  with Some show ?thesis by (simp add: cm_endCall_def Let_def)
qed

lemma callbacks_step:
  "\<exists>xs. endedCallbacks (manager_step throws cmd m) = endedCallbacks m @ xs"
  by (cases cmd) (simp_all add: callbacks_processEvent callbacks_endCall)

lemma callbacks_run:
  "\<exists>xs. endedCallbacks (run_manager throws cmds m) = endedCallbacks m @ xs"
proof (induction cmds arbitrary: m)
  case Nil
  show ?case by simp
next
  case (Cons cmd cmds)
  from callbacks_step[of throws cmd m] obtain xs
    where a: "endedCallbacks (manager_step throws cmd m) = endedCallbacks m @ xs" by blast
  from Cons[of "manager_step throws cmd m"] obtain ys
    where "endedCallbacks (run_manager throws cmds (manager_step throws cmd m))
            = endedCallbacks (manager_step throws cmd m) @ ys" by blast
  with a show ?case by simp
qed

lemma terminal_stays_processEvent:
  assumes inv: "manager_inv c m" and st: "activeCalls m c = Some r"
    and t: "is_terminal (cr_state r)" and fresh: "newId \<noteq> c"
  shows "\<exists>r'. activeCalls (cm_processEvent throws newId event m) c = Some r'
           \<and> outcome_of r' = outcome_of r"
proof (cases "cm_findCall m event")
  case None
  with st fresh show ?thesis
    by (auto simp: cm_processEvent_def Let_def store_call_def split: option.splits)
next
  case (Some r0)
  from inv Some have st0: "activeCalls m (cr_callId r0) = Some r0" by (rule findCall_stored)
  let ?r1 = "r0\<lparr>cr_processedEventIds := cr_processedEventIds r0 @ [ev_id event]\<rparr>"
  let ?r2 = "fst (cm_promote event ?r1 m)" and ?m1 = "snd (cm_promote event ?r1 m)"
  show ?thesis
  proof (cases "cr_callId r0 = c")
    case True
    with st st0 have "r0 = r" by simp
    with Some st t show ?thesis
      by (simp add: cm_processEvent_def Let_def store_call_def outcome_of_def)
  next
    case False
    have p: "cr_callId ?r2 = cr_callId r0" "activeCalls ?m1 = activeCalls m"
      by (simp_all add: promote_props)
    have a: "activeCalls (store_call (f ?r2) ?m1) c = Some r"
      if "cr_callId (f ?r2) = cr_callId ?r2" for f :: "call_record \<Rightarrow> call_record"
      using that False st p by (simp add: active_store_other)
    have b: "activeCalls (cm_notifyEnded throws (f ?r2) ?m1) c = Some r"
      if "cr_callId (f ?r2) = cr_callId ?r2" for f :: "call_record \<Rightarrow> call_record"
      using that False st p by (simp add: active_notify_other)
    have a0: "activeCalls (store_call ?r2 ?m1) c = Some r" using a[of "\<lambda>x. x"] by simp
    have a1: "activeCalls (store_call (?r2\<lparr>cr_state := Answered\<rparr>) ?m1) c = Some r"
      using a[of "\<lambda>x. x\<lparr>cr_state := Answered\<rparr>"] by simp
    have a2: "activeCalls (store_call (?r2\<lparr>cr_transcript := tr\<rparr>) ?m1) c = Some r" for tr
      using a[of "\<lambda>x. x\<lparr>cr_transcript := tr\<rparr>"] by simp
    have a3: "activeCalls (cm_notifyEnded throws (?r2\<lparr>cr_state := st', cr_endReason := er\<rparr>) ?m1) c
                = Some r" for st' er
      using b[of "\<lambda>x. x\<lparr>cr_state := st', cr_endReason := er\<rparr>"] by simp
    have a4: "activeCalls (store_call ?r1 m) c = Some r"
      using False st by (simp add: active_store_other)
    from Some st a0 a1 a2 a3 a4 show ?thesis
      by (simp add: cm_processEvent_def Let_def split_beta split: event_type.splits)
  qed
qed

lemma terminal_stays_endCall:
  assumes inv: "manager_inv c m" and st: "activeCalls m c = Some r"
    and t: "is_terminal (cr_state r)"
  shows "\<exists>r'. activeCalls (fst (cm_endCall throws callId hangupOk m)) c = Some r'
           \<and> outcome_of r' = outcome_of r"
proof (cases "cm_getCall m callId")
  case None
  with st show ?thesis by (simp add: cm_endCall_def)
next
  case (Some r0)
  then have st0: "activeCalls m callId = Some r0" by (simp add: cm_getCall_def)
  with inv have k: "cr_callId r0 = callId" by (simp add: manager_inv_def)
  show ?thesis
  proof (cases "callId = c")
    case True
    with st st0 have "r0 = r" by simp
    with Some st t show ?thesis by (auto simp: cm_endCall_def is_terminal_def)
  next
    case False
    have "activeCalls (cm_notifyEnded throws (r0\<lparr>cr_state := Ended, cr_endReason := e\<rparr>)
              (m\<lparr>hangupRequests := h\<rparr>)) c = Some r" for e h
      using False k st by (simp add: active_notify_other)
    with Some st show ?thesis by (simp add: cm_endCall_def Let_def)
  qed
qed

lemma terminal_stays_step:
  assumes "manager_inv c m" and "activeCalls m c = Some r" and "is_terminal (cr_state r)"
    and "generated_id cmd \<noteq> Some c"
  shows "\<exists>r'. activeCalls (manager_step throws cmd m) c = Some r' \<and> outcome_of r' = outcome_of r"
  using assms by (cases cmd) (simp_all add: terminal_stays_processEvent terminal_stays_endCall)

lemma outcome_terminal: "outcome_of r' = outcome_of r \<Longrightarrow> cr_state r' = cr_state r"
  by (cases r, cases r') (simp add: outcome_of_def)

lemma terminal_stays_run:
  assumes "manager_inv c m" and "activeCalls m c = Some r" and "is_terminal (cr_state r)"
    and "\<forall>cmd\<in>set cmds. generated_id cmd \<noteq> Some c"
  shows "\<exists>r'. activeCalls (run_manager throws cmds m) c = Some r' \<and> outcome_of r' = outcome_of r"
  using assms
proof (induction cmds arbitrary: m r)
  case Nil
  then show ?case by simp
next
  case (Cons cmd cmds)
  from Cons.prems have g: "generated_id cmd \<noteq> Some c" by simp
  from terminal_stays_step[OF Cons.prems(1) Cons.prems(2) Cons.prems(3) g, of throws]
  obtain r1 where r1: "activeCalls (manager_step throws cmd m) c = Some r1"
    "outcome_of r1 = outcome_of r" by blast
  then have t1: "is_terminal (cr_state r1)" using Cons.prems(3) outcome_terminal[of r1 r] by simp
  have i1: "manager_inv c (manager_step throws cmd m)"
    using Cons.prems(1) g by (rule inv_manager_step)
  from Cons.prems have "\<forall>cmd\<in>set cmds. generated_id cmd \<noteq> Some c" by simp
  from Cons.IH[OF i1 r1(1) t1 this] r1(2) show ?case by simp
qed

section \<open>C1: the ended-callback fires exactly once\<close>

text \<open>
  C1, on the manager of the specification. The invariant holds for a new manager and is kept by
  every event and every \<^verbatim>\<open>endCall\<close>, as long as no later record is given the identifier
  of the call, so the ended-callback is invoked at most once for the call whatever
  happens. For a call that has not ended, a first terminal trigger (the bot's \<^verbatim>\<open>endCall\<close>,
  a \<^verbatim>\<open>call.ended\<close> event, a non-retryable \<^verbatim>\<open>call.error\<close> event) followed by any further
  commands, terminal triggers in any combination and order among them, leaves exactly one
  invocation. The record handed over is the record stored by that first trigger, in a
  terminal state and with the trigger's end reason, and apart from the list of applied
  event ids it is the record stored at the end. A callback that throws adds one logged
  error and changes nothing else: the statement holds for every \<open>throws\<close>, and neither
  \<^verbatim>\<open>processEvent\<close> nor \<^verbatim>\<open>endCall\<close> has an exceptional result.
\<close>

theorem ended_callback_exactly_once:
  "manager_inv c (new_call_manager policy allowed)
   \<and> (manager_inv c m \<and> (\<forall>cmd\<in>set cmds. generated_id cmd \<noteq> Some c)
        \<longrightarrow> manager_inv c (run_manager throws cmds m)
            \<and> ended_count c (run_manager throws cmds m) \<le> 1)
   \<and> (manager_inv c m \<and> activeCalls m c = Some r \<and> \<not> is_terminal (cr_state r)
        \<and> \<not> cr_endedCallbackFired r \<and> terminal_trigger c r m first
        \<and> (\<forall>cmd\<in>set (first # rest). generated_id cmd \<noteq> Some c)
        \<longrightarrow> ended_count c (run_manager throws (first # rest) m) = 1
            \<and> (\<exists>snap final.
                  callbacks_for c (run_manager throws (first # rest) m) = [snap]
                  \<and> activeCalls (manager_step throws first m) c = Some snap
                  \<and> is_terminal (cr_state snap)
                  \<and> cr_endReason snap = trigger_reason first
                  \<and> activeCalls (run_manager throws (first # rest) m) c = Some final
                  \<and> outcome_of final = outcome_of snap
                  \<and> loggedErrors (manager_step throws first m)
                      = loggedErrors m + (if throws snap then 1 else 0)))"
proof (intro conjI impI)
  show "manager_inv c (new_call_manager policy allowed)" by (rule inv_new_call_manager)
next
  assume a: "manager_inv c m \<and> (\<forall>cmd\<in>set cmds. generated_id cmd \<noteq> Some c)"
  then show i: "manager_inv c (run_manager throws cmds m)" by (simp add: inv_run_manager)
  then show "ended_count c (run_manager throws cmds m) \<le> 1"
    by (auto simp: manager_inv_def)
next
  assume a: "manager_inv c m \<and> activeCalls m c = Some r \<and> \<not> is_terminal (cr_state r)
        \<and> \<not> cr_endedCallbackFired r \<and> terminal_trigger c r m first
        \<and> (\<forall>cmd\<in>set (first # rest). generated_id cmd \<noteq> Some c)"
  let ?m1 = "manager_step throws first m" and ?mf = "run_manager throws (first # rest) m"
  from a have inv: "manager_inv c m" and g1: "generated_id first \<noteq> Some c"
    and gr: "\<forall>cmd\<in>set rest. generated_id cmd \<noteq> Some c" by simp_all
  from a have z: "callbacks_for c m = []"
    by (auto simp: manager_inv_def ended_count_callbacks)
  from a trigger_fires[of c m r first throws] obtain snap where
    snap: "activeCalls ?m1 c = Some snap" "endedCallbacks ?m1 = endedCallbacks m @ [snap]"
      "cr_callId snap = c" "is_terminal (cr_state snap)" "cr_endReason snap = trigger_reason first"
      "loggedErrors ?m1 = loggedErrors m + (if throws snap then 1 else 0)"
    by blast
  have i1: "manager_inv c ?m1" using inv g1 by (rule inv_manager_step)
  from terminal_stays_run[OF i1 snap(1) snap(4) gr, of throws] obtain final where
    fin: "activeCalls ?mf c = Some final" "outcome_of final = outcome_of snap" by auto
  have "manager_inv c ?mf" using i1 gr inv_run_manager[of c ?m1 rest throws] by simp
  then have le: "length (callbacks_for c ?mf) \<le> 1"
    by (auto simp: manager_inv_def ended_count_callbacks)
  from callbacks_run[of throws rest ?m1] obtain xs where
    "endedCallbacks ?mf = endedCallbacks ?m1 @ xs" by auto
  with snap z have cb: "callbacks_for c ?mf = snap # filter (\<lambda>x. cr_callId x = c) xs"
    by (simp add: callbacks_for_def)
  with le have one: "callbacks_for c ?mf = [snap]" by simp
  then show "ended_count c ?mf = 1" by (simp add: ended_count_callbacks)
  from one snap fin show "\<exists>snap final.
                  callbacks_for c ?mf = [snap]
                  \<and> activeCalls ?m1 c = Some snap
                  \<and> is_terminal (cr_state snap)
                  \<and> cr_endReason snap = trigger_reason first
                  \<and> activeCalls ?mf c = Some final
                  \<and> outcome_of final = outcome_of snap
                  \<and> loggedErrors ?m1 = loggedErrors m + (if throws snap then 1 else 0)"
    by blast
qed

text \<open>
  C1 on the answered call of manager.test.ts with a callback that always throws: the bot
  hangs up, then the provider reports \<^verbatim>\<open>call.ended\<close> and an error, and the bot hangs up
  again; and the same with the error first.
\<close>

theorem ended_callback_exactly_once_witness:
  "manager_inv ''call-1'' answered_manager
   \<and> activeCalls answered_manager ''call-1'' = Some answered_call
   \<and> \<not> is_terminal (cr_state answered_call) \<and> \<not> cr_endedCallbackFired answered_call
   \<and> terminal_trigger ''call-1'' answered_call answered_manager (EndCallCommand ''call-1'' True)
   \<and> terminal_trigger ''call-1'' answered_call answered_manager (Event error_event ''call-2'')
   \<and> ended_count ''call-1''
        (run_manager (\<lambda>r. True)
           (EndCallCommand ''call-1'' True
              # [Event ended_event ''call-2'', Event error_event ''call-3'',
                 EndCallCommand ''call-1'' True])
           answered_manager) = 1
   \<and> ended_count ''call-1''
        (run_manager (\<lambda>r. True)
           (Event error_event ''call-2''
              # [EndCallCommand ''call-1'' True, Event ended_event ''call-3''])
           answered_manager) = 1"
proof -
  have h1: "manager_inv ''call-1'' answered_manager"
    by (simp add: manager_inv_def answered_manager_def answered_call_def ended_count_def)
  have h2: "activeCalls answered_manager ''call-1'' = Some answered_call"
    by (simp add: answered_manager_def)
  have h3: "\<not> is_terminal (cr_state answered_call) \<and> \<not> cr_endedCallbackFired answered_call"
    by (simp add: answered_call_def is_terminal_def)
  have h4: "terminal_trigger ''call-1'' answered_call answered_manager (EndCallCommand ''call-1'' True)"
    by (simp add: answered_call_def)
  have h5: "terminal_trigger ''call-1'' answered_call answered_manager (Event error_event ''call-2'')"
    by (simp add: answered_call_def answered_manager_def error_event_def blank_event_def
        cm_findCall_def cm_getCallByProviderCallId_def truthy_bool_def)
  have g1: "\<forall>cmd\<in>set (EndCallCommand ''call-1'' True
              # [Event ended_event ''call-2'', Event error_event ''call-3'',
                 EndCallCommand ''call-1'' True]). generated_id cmd \<noteq> Some ''call-1''"
    by simp
  have g2: "\<forall>cmd\<in>set (Event error_event ''call-2''
              # [EndCallCommand ''call-1'' True, Event ended_event ''call-3'']).
              generated_id cmd \<noteq> Some ''call-1''"
    by simp
  from ended_callback_exactly_once[of "''call-1''" PolicyOpen "[]" answered_manager "[]"
      "\<lambda>r. True" answered_call "EndCallCommand ''call-1'' True"
      "[Event ended_event ''call-2'', Event error_event ''call-3'', EndCallCommand ''call-1'' True]"]
    h1 h2 h3 h4 g1
  have a: "ended_count ''call-1''
        (run_manager (\<lambda>r. True)
           (EndCallCommand ''call-1'' True
              # [Event ended_event ''call-2'', Event error_event ''call-3'',
                 EndCallCommand ''call-1'' True])
           answered_manager) = 1"
    by blast
  from ended_callback_exactly_once[of "''call-1''" PolicyOpen "[]" answered_manager "[]"
      "\<lambda>r. True" answered_call "Event error_event ''call-2''"
      "[EndCallCommand ''call-1'' True, Event ended_event ''call-3'']"]
    h1 h2 h3 h5 g2
  have b: "ended_count ''call-1''
        (run_manager (\<lambda>r. True)
           (Event error_event ''call-2''
              # [EndCallCommand ''call-1'' True, Event ended_event ''call-3''])
           answered_manager) = 1"
    by blast
  from h1 h2 h3 h4 h5 a b show ?thesis by blast
qed

end
